theory Spec2Isabelle
  imports Main
begin

unbundle bit_operations_syntax

section \<open>Machine arithmetic and memory\<close>

text \<open>
  The source computes on \<open>std::uint32_t\<close> and \<open>std::uint64_t\<close>. They are modelled as
  natural numbers with the wrap-around written out: \<open>u32\<close> is the conversion to
  \<open>std::uint32_t\<close>, \<open>u64\<close> the one to \<open>std::uint64_t\<close>. The \<open>int\<close> exponent is a mathematical integer
  (signed overflow is undefined behaviour in the source and is not modelled).
\<close>

definition u32 :: "nat \<Rightarrow> nat" where
  "u32 x = x mod 2 ^ 32"

definition u64 :: "nat \<Rightarrow> nat" where
  "u64 x = x mod 2 ^ 64"

definition u16 :: "nat \<Rightarrow> nat" where
  "u16 x = x mod 2 ^ 16"

text \<open>
  The shifts \<open>x >> k\<close> and \<open>x << k\<close> on unsigned values (before the conversion to the
  result type).
\<close>

definition shr :: "nat \<Rightarrow> nat \<Rightarrow> nat" where
  "shr x k = x div 2 ^ k"

definition shl :: "nat \<Rightarrow> nat \<Rightarrow> nat" where
  "shl x k = x * 2 ^ k"

text \<open>
  \<open>a - b\<close> on \<open>std::uint32_t\<close> (it wraps around), and \<open>unsigned(b)\<close> for a boolean
  \<open>b\<close>.
\<close>

definition sub32 :: "nat \<Rightarrow> nat \<Rightarrow> nat" where
  "sub32 a b = u32 (u32 a + 2 ^ 32 - u32 b)"

definition unsigned :: "bool \<Rightarrow> nat" where
  "unsigned b = (if b then 1 else 0)"

text \<open>
  The output buffer is a region of byte-addressed memory: a store from addresses to
  characters. A \<open>char*\<close> is an address. The store is total, so that every write of the
  code, wherever it lands, is visible in the resulting store.
\<close>

type_synonym memory = "nat \<Rightarrow> char"

text \<open>
  \<open>std::memcpy(dst, table + off, 2)\<close> and \<open>std::memcpy(dst, "literal", n)\<close>.
\<close>

definition memcpy2 :: "memory \<Rightarrow> nat \<Rightarrow> char list \<Rightarrow> nat \<Rightarrow> memory" where
  "memcpy2 mem dst table off = mem(dst := table ! off, dst + 1 := table ! (off + 1))"

fun memcpy_str :: "memory \<Rightarrow> nat \<Rightarrow> char list \<Rightarrow> memory" where
  "memcpy_str mem dst [] = mem"
| "memcpy_str mem dst (c # cs) = memcpy_str (mem(dst := c)) (dst + 1) cs"

text \<open>
  The comparison \<open>buffer[i] > '0'\<close> on characters.
\<close>

definition char_gt :: "char \<Rightarrow> char \<Rightarrow> bool" where
  "char_gt a b = ((of_char b :: nat) < of_char a)"

text \<open>
  \<open>char('0' + n)\<close>: the conversion to \<open>char\<close> keeps the low eight bits.
\<close>

definition digit_char :: "nat \<Rightarrow> char" where
  "digit_char n = char_of (of_char CHR ''0'' + n)"

text \<open>
  The bytes of the half-open address range \<open>[a, b)\<close>.
\<close>

definition range_bytes :: "memory \<Rightarrow> nat \<Rightarrow> nat \<Rightarrow> char list" where
  "range_bytes mem a b = map mem [a..<b]"

section \<open>Radix-100 tables\<close>

definition radix_100_head_table :: "char list" where
  "radix_100_head_table =
     ''0.1.2.3.4.'' @ ''5.6.7.8.9.'' @
     ''1.1.1.1.1.'' @ ''1.1.1.1.1.'' @
     ''2.2.2.2.2.'' @ ''2.2.2.2.2.'' @
     ''3.3.3.3.3.'' @ ''3.3.3.3.3.'' @
     ''4.4.4.4.4.'' @ ''4.4.4.4.4.'' @
     ''5.5.5.5.5.'' @ ''5.5.5.5.5.'' @
     ''6.6.6.6.6.'' @ ''6.6.6.6.6.'' @
     ''7.7.7.7.7.'' @ ''7.7.7.7.7.'' @
     ''8.8.8.8.8.'' @ ''8.8.8.8.8.'' @
     ''9.9.9.9.9.'' @ ''9.9.9.9.9.''"

text \<open>
  Modelled from the spec: \<open>radix_table\<close> is declared in a header that is not among the
  sources. Section 4.A of the specification describes it (\<open>two_digit_table\<close>): 200
  bytes, entry \<open>i\<close> of \<open>[0, 99]\<close> occupies bytes \<open>[2i, 2i+1]\<close> and equals
  \<open>('0' + i / 10, '0' + i % 10)\<close>.
\<close>

definition radix_table :: "char list" where
  "radix_table =
     concat (map (\<lambda>i. [digit_char (i div 10), digit_char (i mod 10)]) [0..<100])"

section \<open>Fixed-width digit emitters\<close>

definition print_1_digit :: "nat \<Rightarrow> nat \<Rightarrow> memory \<Rightarrow> memory" where
  "print_1_digit n buffer mem = mem(buffer := digit_char n)"

definition print_2_digits :: "nat \<Rightarrow> nat \<Rightarrow> memory \<Rightarrow> memory" where
  "print_2_digits n buffer mem = memcpy2 mem buffer radix_table (n * 2)"

section \<open>The shortest-digit engine for one 32-bit block\<close>

text \<open>
  \<open>print_9_digits(s32, exponent, buffer)\<close> takes \<open>exponent\<close> and \<open>buffer\<close> by
  reference; the model returns the updated exponent, the updated buffer pointer and
  the memory.
\<close>

definition print_9_digits :: "nat \<Rightarrow> int \<Rightarrow> nat \<Rightarrow> memory \<Rightarrow> int \<times> nat \<times> memory" where
  "print_9_digits s32 exponent buffer mem =
    (if s32 \<ge> 100000000 then
       let prod = u64 (s32 * 1441151882);
           prod = shr prod 25;
           mem = memcpy2 mem buffer radix_100_head_table (u32 (shr prod 32) * 2);
           prod = u64 (u32 prod * 100);
           mem = print_2_digits (u32 (shr prod 32)) (buffer + 2) mem;
           prod = u64 (u32 prod * 100);
           mem = print_2_digits (u32 (shr prod 32)) (buffer + 4) mem;
           prod = u64 (u32 prod * 100);
           mem = print_2_digits (u32 (shr prod 32)) (buffer + 6) mem;
           prod = u64 (u32 prod * 100);
           mem = print_2_digits (u32 (shr prod 32)) (buffer + 8) mem
       in (exponent + 8, buffer + 10, mem)
     else if s32 \<ge> 1000000 then
       let prod = u64 (s32 * 281474978);
           prod = shr prod 16;
           head_digits = u32 (shr prod 32);
           exponent = exponent + int (6 + unsigned (head_digits \<ge> 10));
           mem = memcpy2 mem buffer radix_100_head_table (head_digits * 2);
           mem = mem(buffer + 2 := radix_table ! (head_digits * 2 + 1))
       in
         if u32 prod \<le> u32 (u64 (shl 1 32) div 1000000) then
           (exponent,
            buffer + (1 + (unsigned (head_digits \<ge> 10) AND unsigned (char_gt (mem (buffer + 2)) CHR ''0'')) * 2),
            mem)
         else
           let buffer = buffer + unsigned (head_digits \<ge> 10);
               prod = u64 (u32 prod * 100);
               mem = print_2_digits (u32 (shr prod 32)) (buffer + 2) mem
           in
             if u32 prod \<le> u32 (u64 (shl 1 32) div 10000) then
               (exponent, buffer + (3 + unsigned (char_gt (mem (buffer + 3)) CHR ''0'')), mem)
             else
               let prod = u64 (u32 prod * 100);
                   mem = print_2_digits (u32 (shr prod 32)) (buffer + 4) mem
               in
                 if u32 prod \<le> u32 (u64 (shl 1 32) div 100) then
                   (exponent, buffer + (5 + unsigned (char_gt (mem (buffer + 5)) CHR ''0'')), mem)
                 else
                   let prod = u64 (u32 prod * 100);
                       mem = print_2_digits (u32 (shr prod 32)) (buffer + 6) mem
                   in (exponent, buffer + (7 + unsigned (char_gt (mem (buffer + 7)) CHR ''0'')), mem)
     else if s32 \<ge> 10000 then
       let prod = u64 (s32 * 429497);
           head_digits = u32 (shr prod 32);
           exponent = exponent + int (4 + unsigned (head_digits \<ge> 10));
           mem = memcpy2 mem buffer radix_100_head_table (head_digits * 2);
           mem = mem(buffer + 2 := radix_table ! (head_digits * 2 + 1))
       in
         if u32 prod \<le> u32 (u64 (shl 1 32) div 10000) then
           (exponent,
            buffer + (1 + (unsigned (head_digits \<ge> 10) AND unsigned (char_gt (mem (buffer + 2)) CHR ''0'')) * 2),
            mem)
         else
           let buffer = buffer + unsigned (head_digits \<ge> 10);
               prod = u64 (u32 prod * 100);
               mem = print_2_digits (u32 (shr prod 32)) (buffer + 2) mem
           in
             if u32 prod \<le> u32 (u64 (shl 1 32) div 100) then
               (exponent, buffer + (3 + unsigned (char_gt (mem (buffer + 3)) CHR ''0'')), mem)
             else
               let prod = u64 (u32 prod * 100);
                   mem = print_2_digits (u32 (shr prod 32)) (buffer + 4) mem
               in (exponent, buffer + (5 + unsigned (char_gt (mem (buffer + 5)) CHR ''0'')), mem)
     else if s32 \<ge> 100 then
       let prod = u64 (s32 * 42949673);
           head_digits = u32 (shr prod 32);
           exponent = exponent + (2 + int (unsigned (head_digits \<ge> 10)));
           mem = memcpy2 mem buffer radix_100_head_table (head_digits * 2);
           mem = mem(buffer + 2 := radix_table ! (head_digits * 2 + 1))
       in
         if u32 prod \<le> u32 (u64 (shl 1 32) div 100) then
           (exponent,
            buffer + (1 + (unsigned (head_digits \<ge> 10) AND unsigned (char_gt (mem (buffer + 2)) CHR ''0'')) * 2),
            mem)
         else
           let buffer = buffer + unsigned (head_digits \<ge> 10);
               prod = u64 (u32 prod * 100);
               mem = print_2_digits (u32 (shr prod 32)) (buffer + 2) mem
           in (exponent, buffer + (3 + unsigned (char_gt (mem (buffer + 3)) CHR ''0'')), mem)
     else
       let exponent = exponent + int (unsigned (s32 \<ge> 10));
           mem = memcpy2 mem buffer radix_100_head_table (s32 * 2);
           mem = mem(buffer + 2 := radix_table ! (s32 * 2 + 1))
       in
         (exponent,
          buffer + (1 + (unsigned (s32 \<ge> 10) AND unsigned (char_gt (mem (buffer + 2)) CHR ''0'')) * 2),
          mem))"

section \<open>The writer for binary32\<close>

text \<open>
  \<open>chars_format\<close> is declared in a header outside the sources; the code only compares
  it with \<open>chars_format::scientific\<close>.
\<close>

datatype chars_format = scientific | fixed | general | hex

text \<open>
  \<open>to_chars<float, ...>(s32, exponent, buffer, fmt)\<close>. The model returns the returned
  pointer and the memory. The branch \<open>exponent == 0\<close> returns early (\<open>Inl\<close>); the
  two other branches fall through to the two exponent digits (\<open>Inr\<close>).
\<close>

definition to_chars_float :: "nat \<Rightarrow> int \<Rightarrow> nat \<Rightarrow> chars_format \<Rightarrow> memory \<Rightarrow> nat \<times> memory" where
  "to_chars_float s32 exponent buffer fmt mem =
    (let (exponent, buffer, mem) = print_9_digits s32 exponent buffer mem in
     case (if exponent < 0 then
             let mem = memcpy_str mem buffer ''e-'';
                 buffer = buffer + 2;
                 exponent = - exponent
             in Inr (exponent, buffer, mem)
           else if exponent = 0 then
             let (buffer, mem) =
                   (if fmt = scientific then (buffer + 4, memcpy_str mem buffer ''e+00'')
                    else (buffer, mem))
             in Inl (buffer, mem)
           else
             let mem = memcpy_str mem buffer ''e+'';
                 buffer = buffer + 2
             in Inr (exponent, buffer, mem))
     of Inl r \<Rightarrow> r
      | Inr (exponent, buffer, mem) \<Rightarrow>
          let mem = print_2_digits (u32 (nat exponent)) buffer mem;
              buffer = buffer + 2
          in (buffer, mem))"

section \<open>The writer for binary64\<close>

text \<open>
  Lines 304 to 319 of \<open>to_chars<double, ...>\<close>: the decomposition of the significand
  into a block of up to 9 digits and a block of 8 digits. The result is
  \<open>(first_block, second_block, exponent, no_second_block)\<close>.
\<close>

definition split_blocks :: "nat \<Rightarrow> int \<Rightarrow> nat \<times> nat \<times> int \<times> bool" where
  "split_blocks significand exponent =
    (if significand \<ge> 100000000 then
       let first_block = u32 (significand div 100000000);
           second_block = sub32 (u32 significand) (u32 (first_block * 100000000));
           exponent = exponent + 8;
           no_second_block = (second_block = 0)
       in (first_block, second_block, exponent, no_second_block)
     else
       let first_block = u32 significand;
           no_second_block = True
       in (first_block, 0, exponent, no_second_block))"

text \<open>
  Lines 329 to 361: the input has 17 digits, the first block 9 and the second 8.
\<close>

definition print_17_digits :: "nat \<Rightarrow> nat \<Rightarrow> int \<Rightarrow> nat \<Rightarrow> memory \<Rightarrow> int \<times> nat \<times> memory" where
  "print_17_digits first_block second_block exponent buffer mem =
    (let prod = u64 (first_block * 1441151882);
         prod = shr prod 25;
         mem = memcpy2 mem buffer radix_100_head_table (u32 (shr prod 32) * 2);
         prod = u64 (u32 prod * 100);
         mem = print_2_digits (u32 (shr prod 32)) (buffer + 2) mem;
         prod = u64 (u32 prod * 100);
         mem = print_2_digits (u32 (shr prod 32)) (buffer + 4) mem;
         prod = u64 (u32 prod * 100);
         mem = print_2_digits (u32 (shr prod 32)) (buffer + 6) mem;
         prod = u64 (u32 prod * 100);
         mem = print_2_digits (u32 (shr prod 32)) (buffer + 8) mem;
         prod = u64 (second_block * 281474978);
         prod = shr prod 16;
         prod = u64 (prod + 1);
         mem = print_2_digits (u32 (shr prod 32)) (buffer + 10) mem;
         prod = u64 (u32 prod * 100);
         mem = print_2_digits (u32 (shr prod 32)) (buffer + 12) mem;
         prod = u64 (u32 prod * 100);
         mem = print_2_digits (u32 (shr prod 32)) (buffer + 14) mem;
         prod = u64 (u32 prod * 100);
         mem = print_2_digits (u32 (shr prod 32)) (buffer + 16) mem
     in (exponent + 8, buffer + 18, mem))"

text \<open>
  Lines 364 to 436: the first block has at most 8 digits and all of them are printed.
\<close>

definition print_first_block :: "nat \<Rightarrow> int \<Rightarrow> nat \<Rightarrow> memory \<Rightarrow> int \<times> nat \<times> memory" where
  "print_first_block first_block exponent buffer mem =
    (if first_block \<ge> 1000000 then
       let prod = u64 (first_block * 281474978);
           prod = shr prod 16;
           head_digits = u32 (shr prod 32);
           mem = memcpy2 mem buffer radix_100_head_table (head_digits * 2);
           mem = mem(buffer + 2 := radix_table ! (head_digits * 2 + 1));
           exponent = exponent + int (6 + unsigned (head_digits \<ge> 10));
           buffer = buffer + unsigned (head_digits \<ge> 10);
           prod = u64 (u32 prod * 100);
           mem = print_2_digits (u32 (shr prod 32)) (buffer + 2) mem;
           prod = u64 (u32 prod * 100);
           mem = print_2_digits (u32 (shr prod 32)) (buffer + 4) mem;
           prod = u64 (u32 prod * 100);
           mem = print_2_digits (u32 (shr prod 32)) (buffer + 6) mem
       in (exponent, buffer + 8, mem)
     else if first_block \<ge> 10000 then
       let prod = u64 (first_block * 429497);
           head_digits = u32 (shr prod 32);
           mem = memcpy2 mem buffer radix_100_head_table (head_digits * 2);
           mem = mem(buffer + 2 := radix_table ! (head_digits * 2 + 1));
           exponent = exponent + int (4 + unsigned (head_digits \<ge> 10));
           buffer = buffer + unsigned (head_digits \<ge> 10);
           prod = u64 (u32 prod * 100);
           mem = print_2_digits (u32 (shr prod 32)) (buffer + 2) mem;
           prod = u64 (u32 prod * 100);
           mem = print_2_digits (u32 (shr prod 32)) (buffer + 4) mem
       in (exponent, buffer + 6, mem)
     else if first_block \<ge> 100 then
       let prod = u64 (first_block * 42949673);
           head_digits = u32 (shr prod 32);
           mem = memcpy2 mem buffer radix_100_head_table (head_digits * 2);
           mem = mem(buffer + 2 := radix_table ! (head_digits * 2 + 1));
           exponent = exponent + int (2 + unsigned (head_digits \<ge> 10));
           buffer = buffer + unsigned (head_digits \<ge> 10);
           prod = u64 (u32 prod * 100);
           mem = print_2_digits (u32 (shr prod 32)) (buffer + 2) mem
       in (exponent, buffer + 4, mem)
     else
       let mem = memcpy2 mem buffer radix_100_head_table (first_block * 2);
           mem = mem(buffer + 2 := radix_table ! (first_block * 2 + 1));
           exponent = exponent + int (unsigned (first_block \<ge> 10))
       in (exponent, buffer + (2 + unsigned (first_block \<ge> 10)), mem))"

text \<open>
  Lines 438 to 481: the second block has 8 digits, and its trailing zeros are cut.
\<close>

definition print_second_block :: "nat \<Rightarrow> nat \<Rightarrow> memory \<Rightarrow> nat \<times> memory" where
  "print_second_block second_block buffer mem =
    (let prod = u64 (second_block * 281474978);
         prod = shr prod 16;
         prod = u64 (prod + 1);
         mem = print_2_digits (u32 (shr prod 32)) buffer mem
     in
       if u32 prod \<le> u32 (u64 (shl 1 32) div 1000000) then
         (buffer + (1 + unsigned (char_gt (mem (buffer + 1)) CHR ''0'')), mem)
       else
         let prod = u64 (u32 prod * 100);
             mem = print_2_digits (u32 (shr prod 32)) (buffer + 2) mem
         in
           if u32 prod \<le> u32 (u64 (shl 1 32) div 10000) then
             (buffer + (3 + unsigned (char_gt (mem (buffer + 3)) CHR ''0'')), mem)
           else
             let prod = u64 (u32 prod * 100);
                 mem = print_2_digits (u32 (shr prod 32)) (buffer + 4) mem
             in
               if u32 prod \<le> u32 (u64 (shl 1 32) div 100) then
                 (buffer + (5 + unsigned (char_gt (mem (buffer + 5)) CHR ''0'')), mem)
               else
                 let prod = u64 (u32 prod * 100);
                     mem = print_2_digits (u32 (shr prod 32)) (buffer + 6) mem
                 in (buffer + (7 + unsigned (char_gt (mem (buffer + 7)) CHR ''0'')), mem))"

text \<open>
  Lines 303 to 483: the significand part of \<open>to_chars<double, ...>\<close>. It returns the
  exponent, the buffer pointer and the memory as they are at line 484.
\<close>

definition to_chars_double_significand ::
  "nat \<Rightarrow> int \<Rightarrow> nat \<Rightarrow> memory \<Rightarrow> int \<times> nat \<times> memory" where
  "to_chars_double_significand significand exponent buffer mem =
    (let (first_block, second_block, exponent, no_second_block) =
           split_blocks significand exponent
     in
       if no_second_block then print_9_digits first_block exponent buffer mem
       else if first_block \<ge> 100000000 then
         print_17_digits first_block second_block exponent buffer mem
       else
         let (exponent, buffer, mem) = print_first_block first_block exponent buffer mem;
             (buffer, mem) = print_second_block second_block buffer mem
         in (exponent, buffer, mem))"

text \<open>
  Lines 484 to 524: the exponent part of \<open>to_chars<double, ...>\<close>, with the early
  return of the branch \<open>exponent == 0\<close> as \<open>Inl\<close>.
\<close>

definition to_chars_double :: "nat \<Rightarrow> int \<Rightarrow> nat \<Rightarrow> chars_format \<Rightarrow> memory \<Rightarrow> nat \<times> memory" where
  "to_chars_double significand exponent buffer fmt mem =
    (let (exponent, buffer, mem) = to_chars_double_significand significand exponent buffer mem in
     case (if exponent < 0 then
             let mem = memcpy_str mem buffer ''e-'';
                 buffer = buffer + 2;
                 exponent = - exponent
             in Inr (exponent, buffer, mem)
           else if exponent = 0 then
             let (buffer, mem) =
                   (if fmt = scientific then (buffer + 4, memcpy_str mem buffer ''e+00'')
                    else (buffer, mem))
             in Inl (buffer, mem)
           else
             let mem = memcpy_str mem buffer ''e+'';
                 buffer = buffer + 2
             in Inr (exponent, buffer, mem))
     of Inl r \<Rightarrow> r
      | Inr (exponent, buffer, mem) \<Rightarrow>
          if exponent \<ge> 100 then
            let prod = u32 (u32 (nat exponent) * u32 6554);
                d1 = shr prod 16;
                prod = u32 (u16 prod * u32 5);
                d2 = shr prod 15;
                mem = print_2_digits d1 buffer mem;
                mem = print_1_digit d2 (buffer + 2) mem;
                buffer = buffer + 3
            in (buffer, mem)
          else
            let mem = print_2_digits (u32 (nat exponent)) buffer mem;
                buffer = buffer + 2
            in (buffer, mem))"

section \<open>The writer for NaN of the \<open>long double\<close> fallback\<close>

text \<open>
  Lines 619 to 653. The \<open>long double\<close> argument enters through the three tests the
  code makes of it: \<open>std::isnan\<close>, \<open>std::signbit\<close> and \<open>issignaling\<close>. A value that
  is not a NaN goes to \<open>to_chars_printf_impl\<close>, which is outside the sources: the
  model returns \<open>None\<close> there.
\<close>

definition to_chars_long_double ::
  "nat \<Rightarrow> bool \<Rightarrow> bool \<Rightarrow> bool \<Rightarrow> memory \<Rightarrow> (nat \<times> memory) option" where
  "to_chars_long_double first isnan signbit issignaling mem =
    (if isnan then
       let is_negative = False;
           (is_negative, first, mem) =
              (if signbit then (True, first + 1, mem(first := CHR ''-''))
               else (is_negative, first, mem))
       in
         if issignaling then
           Some (first + 9 + unsigned is_negative, memcpy_str mem first ''nan(snan)'')
         else if is_negative then
           Some (first + 9, memcpy_str mem first ''nan(ind)'')
         else
           Some (first + 3, memcpy_str mem first ''nan'')
     else None)"

section \<open>The pair ladder and the head of the 9-digit band\<close>

text \<open>
  Lines 83 to 85: the index of the head read from \<open>radix_100_head_table\<close> when
  \<open>s32\<close> has 9 digits.
\<close>

definition head_9_digits :: "nat \<Rightarrow> nat" where
  "head_9_digits s32 =
    (let prod = u64 (s32 * 1441151882);
         prod = shr prod 25
     in u32 (shr prod 32))"

text \<open>
  Lines 348 to 357 (and 441 to 477): the arguments of the four calls of
  \<open>print_2_digits\<close> for the second block. \<open>second_block_pairs_without_increment\<close> is
  the same ladder with the statement \<open>prod += 1\<close> left out.
\<close>

definition second_block_pairs :: "nat \<Rightarrow> nat list" where
  "second_block_pairs second_block =
    (let prod = u64 (second_block * 281474978);
         prod = shr prod 16;
         prod = u64 (prod + 1);
         pair1 = u32 (shr prod 32);
         prod = u64 (u32 prod * 100);
         pair2 = u32 (shr prod 32);
         prod = u64 (u32 prod * 100);
         pair3 = u32 (shr prod 32);
         prod = u64 (u32 prod * 100);
         pair4 = u32 (shr prod 32)
     in [pair1, pair2, pair3, pair4])"

definition second_block_pairs_without_increment :: "nat \<Rightarrow> nat list" where
  "second_block_pairs_without_increment second_block =
    (let prod = u64 (second_block * 281474978);
         prod = shr prod 16;
         pair1 = u32 (shr prod 32);
         prod = u64 (u32 prod * 100);
         pair2 = u32 (shr prod 32);
         prod = u64 (u32 prod * 100);
         pair3 = u32 (shr prod 32);
         prod = u64 (u32 prod * 100);
         pair4 = u32 (shr prod 32)
     in [pair1, pair2, pair3, pair4])"

text \<open>
  Lines 510 to 513: the two quotients of the three-digit exponent.
\<close>

definition exponent_digits :: "nat \<Rightarrow> nat \<times> nat" where
  "exponent_digits exponent =
    (let prod = u32 (u32 exponent * u32 6554);
         d1 = shr prod 16;
         prod = u32 (u16 prod * u32 5);
         d2 = shr prod 15
     in (d1, d2))"

section \<open>What the specification says of the text\<close>

text \<open>
  The decimal digits of a number, most significant first; the digits without the
  trailing zeros; and the text of the specification: the leading digit, a \<open>.\<close> if
  more than one significant digit remains, then the remaining significant digits.
\<close>

fun dec_digits :: "nat \<Rightarrow> char list" where
  "dec_digits n = (if n < 10 then [digit_char n] else dec_digits (n div 10) @ [digit_char (n mod 10)])"

declare dec_digits.simps [simp del]

definition strip_trailing_zeros :: "char list \<Rightarrow> char list" where
  "strip_trailing_zeros cs = rev (dropWhile (\<lambda>c. c = CHR ''0'') (rev cs))"

definition point_after_first :: "char list \<Rightarrow> char list" where
  "point_after_first cs =
    (case cs of [] \<Rightarrow> [] | d # ds \<Rightarrow> (if ds = [] then [d] else d # CHR ''.'' # ds))"

definition significand_text :: "nat \<Rightarrow> char list" where
  "significand_text n = point_after_first (strip_trailing_zeros (dec_digits n))"

text \<open>
  The zero-padded decimal digits of a pair \<open>00..99\<close>, and the number of digit
  characters of a text.
\<close>

definition pair_digits :: "nat \<Rightarrow> char list" where
  "pair_digits n = [digit_char (n div 10), digit_char (n mod 10)]"

definition is_digit :: "char \<Rightarrow> bool" where
  "is_digit c = ((of_char CHR ''0'' :: nat) \<le> of_char c \<and> (of_char c :: nat) \<le> of_char CHR ''9'')"

definition count_digits :: "char list \<Rightarrow> nat" where
  "count_digits cs = length (filter is_digit cs)"

text \<open>
  The exponent suffix of the specification, \<open>e[+-][0-9]{2,3}\<close>, and the sign character
  of an exponent.
\<close>

definition exponent_suffix_ok :: "char list \<Rightarrow> bool" where
  "exponent_suffix_ok cs =
    (case cs of
       e # s # ds \<Rightarrow> e = CHR ''e'' \<and> (s = CHR ''+'' \<or> s = CHR ''-'') \<and>
                     (length ds = 2 \<or> length ds = 3) \<and> list_all is_digit ds
     | _ \<Rightarrow> False)"

definition exponent_sign :: "int \<Rightarrow> char" where
  "exponent_sign e = (if e < 0 then CHR ''-'' else CHR ''+'')"

text \<open>
  The zero-padded 8-digit decimal representation of a number below \<open>10^8\<close>, as four
  pairs.
\<close>

definition eight_digits :: "nat \<Rightarrow> char list" where
  "eight_digits n =
     pair_digits (n div 1000000) @ pair_digits (n mod 1000000 div 10000) @
     pair_digits (n mod 10000 div 100) @ pair_digits (n mod 100)"

text \<open>
  The frame of a writer: outside the address range \<open>[a, b)\<close> the memory after is the
  memory before, so no byte outside the range has been written with a new value.
\<close>

definition unchanged_outside :: "memory \<Rightarrow> memory \<Rightarrow> nat \<Rightarrow> nat \<Rightarrow> bool" where
  "unchanged_outside mem mem' a b = (\<forall>i. i < a \<or> b \<le> i \<longrightarrow> mem' i = mem i)"

text \<open>
  The invariant of the multiply-high ladder: \<open>y / 2^32\<close> lies in \<open>[n / K, (n + 1) / K)\<close>.
\<close>

definition jinv :: "nat \<Rightarrow> nat \<Rightarrow> nat \<Rightarrow> bool" where
  "jinv K n y = (n * 2 ^ 32 \<le> y * K \<and> y * K < (n + 1) * 2 ^ 32)"

section \<open>The tables\<close>

lemma length_concat_pairs: "length (concat (map (\<lambda>i. [f i, g i]) [0..<n])) = 2 * n"
  by (induction n) simp_all

lemma concat_pairs_nth:
  "i < n \<Longrightarrow> concat (map (\<lambda>i. [f i, g i]) [0..<n]) ! (i * 2) = f i
     \<and> concat (map (\<lambda>i. [f i, g i]) [0..<n]) ! (i * 2 + 1) = g i"
proof (induction n)
  case 0
  then show ?case by simp
next
  case (Suc n)
  show ?case
  proof (cases "i < n")
    case True
    then show ?thesis using Suc.IH
      by (simp add: nth_append length_concat_pairs)
  next
    case False
    with Suc.prems have "i = n" by simp
    then show ?thesis
      by (simp add: nth_append length_concat_pairs)
  qed
qed

lemma radix_table_nth:
  "n < 100 \<Longrightarrow> radix_table ! (n * 2) = digit_char (n div 10)"
  "n < 100 \<Longrightarrow> radix_table ! (n * 2 + 1) = digit_char (n mod 10)"
  unfolding radix_table_def
  using concat_pairs_nth [of n 100 "\<lambda>i. digit_char (i div 10)" "\<lambda>i. digit_char (i mod 10)"]
  by simp_all

lemma digit_char_simps:
  "digit_char 0 = CHR ''0''" "digit_char 1 = CHR ''1''" "digit_char 2 = CHR ''2''"
  "digit_char 3 = CHR ''3''" "digit_char 4 = CHR ''4''" "digit_char 5 = CHR ''5''"
  "digit_char 6 = CHR ''6''" "digit_char 7 = CHR ''7''" "digit_char 8 = CHR ''8''"
  "digit_char 9 = CHR ''9''"
  by (simp_all add: digit_char_def char_of_eq_iff)

lemma head_table_eq:
  "radix_100_head_table =
     concat (map (\<lambda>i. [digit_char (if i < 10 then i else i div 10), CHR ''.'']) [0..<100])"
  by code_simp

lemma head_table_nth:
  "n < 100 \<Longrightarrow> radix_100_head_table ! (n * 2) = digit_char (if n < 10 then n else n div 10)"
  "n < 100 \<Longrightarrow> radix_100_head_table ! (n * 2 + 1) = CHR ''.''"
  unfolding head_table_eq
  using concat_pairs_nth [of n 100 "\<lambda>i. digit_char (if i < 10 then i else i div 10)" "\<lambda>i. CHR ''.''"]
  by simp_all


lemma char_gt_digit: "d < 10 \<Longrightarrow> char_gt (digit_char d) CHR ''0'' = (0 < d)"
  by (simp add: char_gt_def digit_char_def)

lemma digit_char_eq_0: "d < 10 \<Longrightarrow> (digit_char d = CHR ''0'') = (d = 0)"
  by (simp add: digit_char_def char_of_eq_iff take_bit_eq_mod)

section \<open>The multiply-high ladder\<close>

lemma jinv_head: assumes "jinv K n y" "0 < K" shows "y div 2 ^ 32 = n div K"
proof -
  define q where "q = n div K"
  define r where "r = n mod K"
  define B :: nat where "B = 2 ^ 32"
  have n: "n = q * K + r" by (simp add: q_def r_def)
  have r: "r < K" using assms(2) by (simp add: r_def)
  have j: "n * B \<le> y * K" "y * K < (n + 1) * B" using assms(1) by (simp_all add: jinv_def B_def)
  have "(q * B) * K \<le> n * B" unfolding n by (simp add: algebra_simps)
  also have "\<dots> \<le> y * K" by (rule j(1))
  finally have lo: "q * B \<le> y" using assms(2) by simp
  have "n + 1 \<le> (q + 1) * K" unfolding n using r by (simp add: algebra_simps)
  hence "(n + 1) * B \<le> ((q + 1) * K) * B" by (rule mult_le_mono1)
  also have "\<dots> = ((q + 1) * B) * K" by (simp add: algebra_simps)
  finally have "y * K < ((q + 1) * B) * K" using j(2) by (rule less_le_trans [rotated])
  hence hi: "y < (q + 1) * B" using assms(2) by simp
  have "y div B = q"
    using lo hi by (intro div_nat_eqI) (simp_all add: ac_simps)
  thus ?thesis by (simp add: B_def q_def)
qed

lemma jinv_low: assumes "jinv K n y" "0 < K" shows "jinv K (n mod K) (y mod 2 ^ 32)"
proof -
  define q where "q = n div K"
  define B :: nat where "B = 2 ^ 32"
  define r where "r = n mod K"
  define f where "f = y mod B"
  have q: "y div B = q" using jinv_head [OF assms] by (simp add: q_def B_def)
  have n: "n = q * K + r" by (simp add: q_def r_def)
  have y: "y = q * B + f" unfolding f_def q [symmetric] by simp
  have j: "n * B \<le> y * K" "y * K < (n + 1) * B" using assms(1) by (simp_all add: jinv_def B_def)
  have lo: "r * B \<le> f * K" using j(1) unfolding n y by (simp add: algebra_simps)
  have hi: "f * K < (r + 1) * B" using j(2) unfolding n y by (simp add: algebra_simps)
  show ?thesis using lo hi by (simp add: jinv_def B_def r_def f_def)
qed

lemma jinv_zero:
  assumes "jinv K r f" "0 < K" "(2 ^ 32 :: nat) mod K \<noteq> 0"
  shows "(f \<le> 2 ^ 32 div K) = (r = 0)"
proof
  define B :: nat where "B = 2 ^ 32"
  assume le: "f \<le> 2 ^ 32 div K"
  show "r = 0"
  proof (rule ccontr)
    assume "r \<noteq> 0"
    hence "1 * B \<le> r * B" by (intro mult_le_mono1) simp
    also have "\<dots> \<le> f * K" using assms(1) by (simp add: jinv_def B_def)
    also have "\<dots> \<le> (B div K) * K" using le unfolding B_def by (intro mult_le_mono1)
    finally have a: "B \<le> B div K * K" by simp
    have b: "B div K * K \<le> B" by (rule div_times_less_eq_dividend)
    have "B = B div K * K" using a b by (rule le_antisym)
    hence "B = K * (B div K)" by (simp add: mult.commute)
    hence "K dvd B" by (rule dvdI)
    with assms(3) show False by (simp add: dvd_eq_mod_eq_0 B_def)
  qed
next
  assume "r = 0"
  with assms(1) have "f * K < 2 ^ 32" by (simp add: jinv_def)
  hence "f * K \<le> 2 ^ 32" by simp
  thus "f \<le> 2 ^ 32 div K" using assms(2) by (simp add: less_eq_div_iff_mult_less_eq)
qed

lemma jinv_step: "jinv (100 * K) r f \<Longrightarrow> jinv K r (f * 100)"
  by (simp add: jinv_def ac_simps)


lemma u32_id: "x < 2 ^ 32 \<Longrightarrow> u32 x = x"
  by (simp add: u32_def)

lemma u32_less: "u32 x < 2 ^ 32"
  by (simp add: u32_def)

lemma u64_u32_100: "u64 (u32 y * 100) = u32 y * 100"
proof -
  have "u32 y * 100 < 2 ^ 32 * 100" using u32_less [of y] by simp
  also have "\<dots> < (2 ^ 64 :: nat)" by simp
  finally show ?thesis by (simp add: u64_def)
qed

lemma thresholds:
  "u32 (u64 (shl 1 32) div 1000000) = 4294"
  "u32 (u64 (shl 1 32) div 10000) = 429496"
  "u32 (u64 (shl 1 32) div 100) = 42949672"
  "u32 (u64 (shl (Suc 0) 32) div 1000000) = 4294"
  "u32 (u64 (shl (Suc 0) 32) div 10000) = 429496"
  "u32 (u64 (shl (Suc 0) 32) div 100) = 42949672"
  by (simp_all add: u32_def u64_def shl_def)

lemma ladder_head:
  assumes "jinv K n y" "0 < K" "n div K < 2 ^ 32"
  shows "u32 (shr y 32) = n div K"
  using jinv_head [OF assms(1,2)] assms(3) by (simp add: shr_def u32_id)

lemma ladder_step:
  assumes "jinv (100 * K) n y" "0 < K"
  shows "jinv K (n mod (100 * K)) (u64 (u32 y * 100))"
proof -
  have "jinv (100 * K) (n mod (100 * K)) (u32 y)"
    using jinv_low [OF assms(1)] assms(2) by (simp add: u32_def)
  thus ?thesis unfolding u64_u32_100 by (rule jinv_step)
qed

lemma ladder_zero:
  assumes "jinv K n y" "0 < K" "(2 ^ 32 :: nat) mod K \<noteq> 0"
  shows "(u32 y \<le> 2 ^ 32 div K) = (n mod K = 0)"
proof -
  have "jinv K (n mod K) (u32 y)"
    using jinv_low [OF assms(1,2)] by (simp add: u32_def)
  thus ?thesis using assms(2,3) by (rule jinv_zero)
qed

lemma ladder0:
  assumes "jinv 1 n y" "n < 100"
  shows "u32 (shr y 32) = n"
  using ladder_head [OF assms(1)] assms(2) by simp

lemma ladder2:
  assumes "jinv 100 n y" "n < 10000"
  shows "u32 (shr y 32) = n div 100"
    and "(u32 y \<le> 42949672) = (n mod 100 = 0)"
    and "u32 (shr (u64 (u32 y * 100)) 32) = n mod 100"
proof -
  show "u32 (shr y 32) = n div 100"
    using assms by (intro ladder_head) simp_all
  show "(u32 y \<le> 42949672) = (n mod 100 = 0)"
    using ladder_zero [OF assms(1)] by simp
  have "jinv 1 (n mod (100 * 1)) (u64 (u32 y * 100))"
    using assms(1) by (intro ladder_step) simp_all
  thus "u32 (shr (u64 (u32 y * 100)) 32) = n mod 100"
    by (intro ladder0) simp_all
qed

lemma ladder4:
  assumes "jinv 10000 n y" "n < 1000000"
  shows "u32 (shr y 32) = n div 10000"
    and "(u32 y \<le> 429496) = (n mod 10000 = 0)"
    and "u32 (shr (u64 (u32 y * 100)) 32) = n mod 10000 div 100"
    and "(u32 (u64 (u32 y * 100)) \<le> 42949672) = (n mod 100 = 0)"
    and "u32 (shr (u64 (u32 (u64 (u32 y * 100)) * 100)) 32) = n mod 100"
proof -
  show "u32 (shr y 32) = n div 10000"
    using assms by (intro ladder_head) simp_all
  show "(u32 y \<le> 429496) = (n mod 10000 = 0)"
    using ladder_zero [OF assms(1)] by simp
  have j: "jinv 100 (n mod 10000) (u64 (u32 y * 100))"
    using ladder_step [of 100 n y] assms(1) by simp
  have m: "n mod 10000 mod 100 = n mod 100"
    by (simp add: mod_mod_cancel)
  note l = ladder2 [OF j, unfolded m]
  show "u32 (shr (u64 (u32 y * 100)) 32) = n mod 10000 div 100"
    by (rule l) simp
  show "(u32 (u64 (u32 y * 100)) \<le> 42949672) = (n mod 100 = 0)"
    by (rule l) simp
  show "u32 (shr (u64 (u32 (u64 (u32 y * 100)) * 100)) 32) = n mod 100"
    by (rule l) simp
qed

lemma ladder6:
  assumes "jinv 1000000 n y" "n < 100000000"
  shows "u32 (shr y 32) = n div 1000000"
    and "(u32 y \<le> 4294) = (n mod 1000000 = 0)"
    and "u32 (shr (u64 (u32 y * 100)) 32) = n mod 1000000 div 10000"
    and "(u32 (u64 (u32 y * 100)) \<le> 429496) = (n mod 10000 = 0)"
    and "u32 (shr (u64 (u32 (u64 (u32 y * 100)) * 100)) 32) = n mod 10000 div 100"
    and "(u32 (u64 (u32 (u64 (u32 y * 100)) * 100)) \<le> 42949672)
           = (n mod 100 = 0)"
    and "u32 (shr (u64 (u32 (u64 (u32 (u64 (u32 y * 100)) * 100)) * 100)) 32) = n mod 100"
proof -
  show "u32 (shr y 32) = n div 1000000"
    using assms by (intro ladder_head) simp_all
  show "(u32 y \<le> 4294) = (n mod 1000000 = 0)"
    using ladder_zero [OF assms(1)] by simp
  have j: "jinv 10000 (n mod 1000000) (u64 (u32 y * 100))"
    using ladder_step [of 10000 n y] assms(1) by simp
  have m: "n mod 1000000 mod 10000 = n mod 10000" "n mod 1000000 mod 100 = n mod 100"
    by (simp_all add: mod_mod_cancel)
  note l = ladder4 [OF j, unfolded m]
  show "u32 (shr (u64 (u32 y * 100)) 32) = n mod 1000000 div 10000"
    by (rule l) simp
  show "(u32 (u64 (u32 y * 100)) \<le> 429496) = (n mod 10000 = 0)"
    by (rule l) simp
  show "u32 (shr (u64 (u32 (u64 (u32 y * 100)) * 100)) 32) = n mod 10000 div 100"
    by (rule l) simp
  show "(u32 (u64 (u32 (u64 (u32 y * 100)) * 100)) \<le> 42949672)
           = (n mod 100 = 0)"
    by (rule l) simp
  show "u32 (shr (u64 (u32 (u64 (u32 (u64 (u32 y * 100)) * 100)) * 100)) 32) = n mod 100"
    by (rule l) simp
qed

lemma ladder8:
  assumes "jinv 100000000 n y" "n < 1000000000"
  shows "u32 (shr y 32) = n div 100000000"
    and "u32 (shr (u64 (u32 y * 100)) 32) = n mod 100000000 div 1000000"
    and "u32 (shr (u64 (u32 (u64 (u32 y * 100)) * 100)) 32) = n mod 1000000 div 10000"
    and "u32 (shr (u64 (u32 (u64 (u32 (u64 (u32 y * 100)) * 100)) * 100)) 32)
           = n mod 10000 div 100"
    and "u32 (shr (u64 (u32 (u64 (u32 (u64 (u32 (u64 (u32 y * 100)) * 100)) * 100)) * 100)) 32)
           = n mod 100"
proof -
  show "u32 (shr y 32) = n div 100000000"
    using assms by (intro ladder_head) simp_all
  have j: "jinv 1000000 (n mod 100000000) (u64 (u32 y * 100))"
    using ladder_step [of 1000000 n y] assms(1) by simp
  have m: "n mod 100000000 mod 1000000 = n mod 1000000"
    "n mod 100000000 mod 10000 = n mod 10000" "n mod 100000000 mod 100 = n mod 100"
    by (simp_all add: mod_mod_cancel)
  note l = ladder6 [OF j, unfolded m]
  show "u32 (shr (u64 (u32 y * 100)) 32) = n mod 100000000 div 1000000"
    by (rule l) simp
  show "u32 (shr (u64 (u32 (u64 (u32 y * 100)) * 100)) 32) = n mod 1000000 div 10000"
    by (rule l) simp
  show "u32 (shr (u64 (u32 (u64 (u32 (u64 (u32 y * 100)) * 100)) * 100)) 32)
           = n mod 10000 div 100"
    by (rule l) simp
  show "u32 (shr (u64 (u32 (u64 (u32 (u64 (u32 (u64 (u32 y * 100)) * 100)) * 100)) * 100)) 32)
           = n mod 100"
    by (rule l) simp
qed

lemma shift_bounds:
  fixes X :: nat
  shows "65536 * (X div 65536) \<le> X" "X < 65536 * (X div 65536) + 65536"
    "33554432 * (X div 33554432) \<le> X" "X < 33554432 * (X div 33554432) + 33554432"
  using dividend_less_times_div [of 65536 X] dividend_less_times_div [of 33554432 X]
  by (simp_all add: times_div_less_eq_dividend)

lemma jinv_init9:
  assumes "100000000 \<le> n" "n < 1000000000"
  shows "jinv 100000000 n (shr (u64 (n * 1441151882)) 25)"
proof -
  define y where "y = (n * 1441151882) div 33554432"
  have "n * 1441151882 < 2 ^ 64" using assms by simp
  hence u: "u64 (n * 1441151882) = n * 1441151882" by (simp add: u64_def)
  have a: "33554432 * y \<le> n * 1441151882" unfolding y_def by (rule shift_bounds)
  have b: "n * 1441151882 < 33554432 * y + 33554432" unfolding y_def by (rule shift_bounds)
  have "n * 4294967296 \<le> y * 100000000" using a b assms by linarith
  moreover have "y * 100000000 < n * 4294967296 + 4294967296" using a b assms by linarith
  ultimately have "jinv 100000000 n y" by (simp add: jinv_def)
  thus ?thesis unfolding u y_def shr_def by simp
qed

lemma jinv_init78:
  assumes "1000000 \<le> n" "n < 100000000"
  shows "jinv 1000000 n (shr (u64 (n * 281474978)) 16)"
proof -
  define y where "y = (n * 281474978) div 65536"
  have "n * 281474978 < 2 ^ 64" using assms by simp
  hence u: "u64 (n * 281474978) = n * 281474978" by (simp add: u64_def)
  have a: "65536 * y \<le> n * 281474978" unfolding y_def by (rule shift_bounds)
  have b: "n * 281474978 < 65536 * y + 65536" unfolding y_def by (rule shift_bounds)
  have "n * 4294967296 \<le> y * 1000000" using a b assms by linarith
  moreover have "y * 1000000 < n * 4294967296 + 4294967296" using a b assms by linarith
  ultimately have "jinv 1000000 n y" by (simp add: jinv_def)
  thus ?thesis unfolding u y_def shr_def by simp
qed

lemma jinv_init_second:
  assumes "n < 100000000"
  shows "jinv 1000000 n (shr (u64 (n * 281474978)) 16 + 1)"
proof -
  define y where "y = (n * 281474978) div 65536"
  have "n * 281474978 < 2 ^ 64" using assms by simp
  hence u: "u64 (n * 281474978) = n * 281474978" by (simp add: u64_def)
  have a: "65536 * y \<le> n * 281474978" unfolding y_def by (rule shift_bounds)
  have b: "n * 281474978 < 65536 * y + 65536" unfolding y_def by (rule shift_bounds)
  have "n * 4294967296 \<le> y * 1000000 + 1000000" using a b assms by linarith
  moreover have "y * 1000000 + 1000000 < n * 4294967296 + 4294967296"
    using a b assms by linarith
  ultimately have "jinv 1000000 n (y + 1)" by (simp add: jinv_def)
  thus ?thesis unfolding u y_def shr_def by simp
qed

lemma jinv_init56:
  assumes "n < 1000000"
  shows "jinv 10000 n (u64 (n * 429497))"
proof -
  have "n * 429497 < 2 ^ 64" using assms by simp
  hence u: "u64 (n * 429497) = n * 429497" by (simp add: u64_def)
  have "n * 4294967296 \<le> (n * 429497) * 10000" by linarith
  moreover have "(n * 429497) * 10000 < n * 4294967296 + 4294967296" using assms by linarith
  ultimately show ?thesis unfolding u by (simp add: jinv_def)
qed

lemma jinv_init34:
  assumes "n < 10000"
  shows "jinv 100 n (u64 (n * 42949673))"
proof -
  have "n * 42949673 < 2 ^ 64" using assms by simp
  hence u: "u64 (n * 42949673) = n * 42949673" by (simp add: u64_def)
  have "n * 4294967296 \<le> (n * 42949673) * 100" by linarith
  moreover have "(n * 42949673) * 100 < n * 4294967296 + 4294967296" using assms by linarith
  ultimately show ?thesis unfolding u by (simp add: jinv_def)
qed

section \<open>Auxiliary facts\<close>

lemma u64_id: "x < 2 ^ 64 \<Longrightarrow> u64 x = x"
  by (simp add: u64_def)

lemma u64_inc_shr16: "u64 (shr (u64 x) 16 + 1) = shr (u64 x) 16 + 1"
proof -
  have "u64 x < 2 ^ 64" by (simp add: u64_def)
  hence "u64 x div 2 ^ 16 < 2 ^ 48" by (simp add: less_mult_imp_div_less)
  hence "shr (u64 x) 16 + 1 < 2 ^ 64" by (simp add: shr_def)
  thus ?thesis by (rule u64_id)
qed

lemma second_block_pairs_eq:
  assumes "n < 100000000"
  shows "second_block_pairs n = [n div 1000000, n div 10000 mod 100, n div 100 mod 100, n mod 100]"
proof -
  note l = ladder6 [OF jinv_init_second [OF assms] assms]
  have a: "n mod 1000000 div 10000 = n div 10000 mod 100"
    using mod_mult2_eq [of n 10000 100] by simp
  have b: "n mod 10000 div 100 = n div 100 mod 100"
    using mod_mult2_eq [of n 100 100] by simp
  show ?thesis
    using l a b unfolding second_block_pairs_def Let_def u64_inc_shr16
    by simp
qed

lemma exponent_digits_eq:
  assumes "100 \<le> e" "e \<le> 999"
  shows "exponent_digits e = (e div 10, e mod 10)"
proof -
  define q where "q = e div 10"
  define r where "r = e mod 10"
  define x where "x = 4 * q + 6554 * r"
  define z where "z = 20 * q + 2 * r"
  have e: "e = 10 * q + r" by (simp add: q_def r_def)
  have r: "r < 10" by (simp add: r_def)
  have q: "q \<le> 99" using assms(2) by (simp add: q_def)
  have p: "u32 (u32 e * u32 6554) = e * 6554"
    using assms(2) by (simp add: u32_def)
  have pe: "e * 6554 = q * 65536 + x" by (simp add: e x_def)
  have s: "x < 65536" using q r by (simp add: x_def)
  have d1: "shr (e * 6554) 16 = q"
    unfolding pe shr_def using s by simp
  have lo: "u16 (e * 6554) = x"
    unfolding pe u16_def using s by simp
  have t: "z < 32768" using q r by (simp add: z_def)
  have m: "x * 5 = r * 32768 + z" by (simp add: x_def z_def)
  have "x * 5 < 2 ^ 32" using s by simp
  hence p2: "u32 (x * u32 5) = x * 5"
    by (simp add: u32_def)
  have d2: "shr (x * 5) 15 = r"
    unfolding m shr_def using t by simp
  show ?thesis
    unfolding exponent_digits_def Let_def p d1 lo p2 d2 by (simp add: q_def r_def)
qed

lemma range_bytes_Cons: "a < b \<Longrightarrow> range_bytes m a b = m a # range_bytes m (Suc a) b"
  by (simp add: range_bytes_def upt_conv_Cons)

lemma range_bytes_Nil: "b \<le> a \<Longrightarrow> range_bytes m a b = []"
  by (simp add: range_bytes_def)

lemma range_bytes_append:
  "a \<le> b \<Longrightarrow> b \<le> c \<Longrightarrow> range_bytes m a c = range_bytes m a b @ range_bytes m b c"
proof -
  assume "a \<le> b" "b \<le> c"
  hence "[a..<c] = [a..<b] @ [b..<c]"
    by (metis le_Suc_ex upt_add_eq_append)
  thus ?thesis by (simp add: range_bytes_def)
qed

lemma range_bytes_cong:
  "(\<And>i. a \<le> i \<Longrightarrow> i < b \<Longrightarrow> m i = m' i) \<Longrightarrow> range_bytes m a b = range_bytes m' a b"
  by (simp add: range_bytes_def)

lemma stz_eq_Nil: "(strip_trailing_zeros cs = []) = (\<forall>c \<in> set cs. c = CHR ''0'')"
  by (simp add: strip_trailing_zeros_def dropWhile_eq_Nil_conv)

lemma stz_Nil: "strip_trailing_zeros [] = []"
  by (simp add: strip_trailing_zeros_def)

lemma stz_append:
  "strip_trailing_zeros (xs @ ys) =
     (if strip_trailing_zeros ys = [] then strip_trailing_zeros xs else xs @ strip_trailing_zeros ys)"
  by (simp add: stz_eq_Nil) (simp add: strip_trailing_zeros_def dropWhile_append)

lemma stz_single:
  "strip_trailing_zeros [c] = (if c = CHR ''0'' then [] else [c])"
  by (simp add: strip_trailing_zeros_def)

lemma stz_Cons:
  "strip_trailing_zeros (c # cs) =
     (if strip_trailing_zeros cs = [] then (if c = CHR ''0'' then [] else [c])
      else c # strip_trailing_zeros cs)"
  using stz_append [of "[c]" cs] by (simp add: stz_single)

lemma dec_digits_small: "n < 10 \<Longrightarrow> dec_digits n = [digit_char n]"
  by (simp add: dec_digits.simps)

lemma dec_digits_snoc:
  assumes "0 < m" "d < 10"
  shows "dec_digits (m * 10 + d) = dec_digits m @ [digit_char d]"
proof -
  have "\<not> m * 10 + d < 10" using assms(1) by simp
  moreover have "(m * 10 + d) div 10 = m" "(m * 10 + d) mod 10 = d" using assms(2) by simp_all
  ultimately show ?thesis by (subst dec_digits.simps) simp
qed

lemma dec_digits_pair:
  assumes "0 < m" "a < 100"
  shows "dec_digits (m * 100 + a) = dec_digits m @ pair_digits a"
proof -
  have a: "a div 10 < 10" using assms(2) by simp
  have "m * 100 + a = (m * 10 + a div 10) * 10 + a mod 10" by simp
  hence "dec_digits (m * 100 + a) = dec_digits ((m * 10 + a div 10) * 10 + a mod 10)"
    by (rule arg_cong)
  also have "\<dots> = dec_digits (m * 10 + a div 10) @ [digit_char (a mod 10)]"
    using assms(1) by (intro dec_digits_snoc) simp_all
  also have "dec_digits (m * 10 + a div 10) = dec_digits m @ [digit_char (a div 10)]"
    using assms(1) a by (rule dec_digits_snoc)
  finally show ?thesis by (simp add: pair_digits_def)
qed

lemma dec_digits_two: "10 \<le> h \<Longrightarrow> h < 100 \<Longrightarrow> dec_digits h = pair_digits h"
proof -
  assume h: "10 \<le> h" "h < 100"
  have "h = (h div 10) * 10 + h mod 10" by simp
  moreover have "0 < h div 10" "h div 10 < 10" using h by simp_all
  ultimately have "dec_digits h = dec_digits (h div 10) @ [digit_char (h mod 10)]"
    using dec_digits_snoc [of "h div 10" "h mod 10"] by simp
  thus ?thesis using \<open>h div 10 < 10\<close> by (simp add: dec_digits_small pair_digits_def)
qed

lemma dec_digits_head:
  "h < 100 \<Longrightarrow> dec_digits h = (if h < 10 then [digit_char h] else pair_digits h)"
  by (simp add: dec_digits_small dec_digits_two)

lemma div10_less: "a < 100 \<Longrightarrow> a div 10 < (10::nat)"
  by simp

lemma print_2_digits_eq:
  "n < 100 \<Longrightarrow> print_2_digits n b mem = mem(b := digit_char (n div 10), Suc b := digit_char (n mod 10))"
  using radix_table_nth [of n] by (simp add: print_2_digits_def memcpy2_def)

lemma memcpy2_head:
  "n < 100 \<Longrightarrow> memcpy2 mem b radix_100_head_table (n * 2) =
     mem(b := digit_char (if n < 10 then n else n div 10), Suc b := CHR ''.'')"
  using head_table_nth [of n] by (simp add: memcpy2_def)

lemma radix_table_second: "n < 100 \<Longrightarrow> radix_table ! Suc (n * 2) = digit_char (n mod 10)"
  using radix_table_nth [of n] by simp

lemma unsigned_simps: "unsigned True = 1" "unsigned False = 0"
  by (simp_all add: unsigned_def)

lemma and_unsigned: "unsigned a AND unsigned b = unsigned (a \<and> b)"
  by (cases a; cases b) (simp_all add: unsigned_def)

lemma stz_Cons':
  "strip_trailing_zeros (c # cs) =
     (if (\<forall>x \<in> set cs. x = CHR ''0'') then (if c = CHR ''0'' then [] else [c])
      else c # strip_trailing_zeros cs)"
  by (simp add: stz_Cons stz_eq_Nil)

lemma mod_zero_split:
  assumes "0 < K" "K dvd M"
  shows "((x::nat) mod M = 0) = (x mod M div K = 0 \<and> x mod K = 0)"
proof -
  have "x mod M = (x mod M div K) * K + (x mod M) mod K" by simp
  also have "(x mod M) mod K = x mod K" using assms(2) by (rule mod_mod_cancel)
  finally have e: "x mod M = (x mod M div K) * K + x mod K" .
  show ?thesis
  proof
    assume "x mod M = 0"
    with e have "(x mod M div K) * K + x mod K = 0" by simp
    thus "x mod M div K = 0 \<and> x mod K = 0" using assms(1) by simp
  next
    assume "x mod M div K = 0 \<and> x mod K = 0"
    with e show "x mod M = 0" by simp
  qed
qed

lemma split_pairs3:
  fixes n :: nat
  defines "h \<equiv> n div 1000000" and "a \<equiv> n mod 1000000 div 10000"
    and "b \<equiv> n mod 10000 div 100" and "c \<equiv> n mod 100"
  shows "n = ((h * 100 + a) * 100 + b) * 100 + c"
    and "a < 100" and "b < 100" and "c < 100"
    and "(n mod 1000000 = 0) = (a = 0 \<and> b = 0 \<and> c = 0)"
    and "(n mod 10000 = 0) = (b = 0 \<and> c = 0)"
proof -
  have m: "n mod 1000000 mod 10000 = n mod 10000" "n mod 10000 mod 100 = n mod 100"
    by (simp_all add: mod_mod_cancel)
  have 1: "n = h * 1000000 + n mod 1000000" by (simp add: h_def)
  have 2: "n mod 1000000 = a * 10000 + n mod 10000"
    unfolding a_def using div_mult_mod_eq [of "n mod 1000000" 10000] by (simp add: m)
  have 3: "n mod 10000 = b * 100 + c"
    unfolding b_def c_def using div_mult_mod_eq [of "n mod 10000" 100] by (simp add: m)
  show "n = ((h * 100 + a) * 100 + b) * 100 + c"
    using 1 2 3 by simp
  show "a < 100" unfolding a_def by (intro less_mult_imp_div_less) simp
  show "b < 100" unfolding b_def by (intro less_mult_imp_div_less) simp
  show "c < 100" unfolding c_def by simp
  have z2: "(n mod 10000 = 0) = (n mod 10000 div 100 = 0 \<and> n mod 100 = 0)"
    using mod_zero_split [of 100 10000 n] by simp
  thus "(n mod 10000 = 0) = (b = 0 \<and> c = 0)" by (simp add: b_def c_def)
  have "(n mod 1000000 = 0) = (n mod 1000000 div 10000 = 0 \<and> n mod 10000 = 0)"
    using mod_zero_split [of 10000 1000000 n] by simp
  thus "(n mod 1000000 = 0) = (a = 0 \<and> b = 0 \<and> c = 0)"
    using z2 by (simp add: a_def b_def c_def)
qed

lemma pair_nz: "(a::nat) \<noteq> 0 \<Longrightarrow> a mod 10 = 0 \<Longrightarrow> 0 < a div 10"
  by (metis dvd_div_eq_0_iff dvd_eq_mod_eq_0 gr0I)

lemma dec_digits_pairs2:
  assumes "0 < h" "a < 100" "b < 100"
  shows "dec_digits ((h * 100 + a) * 100 + b) = dec_digits h @ pair_digits a @ pair_digits b"
proof -
  have "0 < h * 100 + a" using assms(1) by simp
  hence "dec_digits ((h * 100 + a) * 100 + b) = dec_digits (h * 100 + a) @ pair_digits b"
    using assms(3) by (rule dec_digits_pair)
  also have "dec_digits (h * 100 + a) = dec_digits h @ pair_digits a"
    using assms(1,2) by (rule dec_digits_pair)
  finally show ?thesis by simp
qed

lemma dec_digits_pairs3:
  assumes "0 < h" "a < 100" "b < 100" "c < 100"
  shows "dec_digits (((h * 100 + a) * 100 + b) * 100 + c) =
           dec_digits h @ pair_digits a @ pair_digits b @ pair_digits c"
proof -
  have "0 < (h * 100 + a) * 100 + b" using assms(1) by simp
  hence "dec_digits (((h * 100 + a) * 100 + b) * 100 + c) =
           dec_digits ((h * 100 + a) * 100 + b) @ pair_digits c"
    using assms(4) by (rule dec_digits_pair)
  also have "dec_digits ((h * 100 + a) * 100 + b) = dec_digits h @ pair_digits a @ pair_digits b"
    using assms(1,2,3) by (rule dec_digits_pairs2)
  finally show ?thesis by simp
qed

lemma dec_digits_pairs4:
  assumes "0 < h" "a < 100" "b < 100" "c < 100" "d < 100"
  shows "dec_digits ((((h * 100 + a) * 100 + b) * 100 + c) * 100 + d) =
           dec_digits h @ pair_digits a @ pair_digits b @ pair_digits c @ pair_digits d"
proof -
  have "0 < ((h * 100 + a) * 100 + b) * 100 + c" using assms(1) by simp
  hence "dec_digits ((((h * 100 + a) * 100 + b) * 100 + c) * 100 + d) =
           dec_digits (((h * 100 + a) * 100 + b) * 100 + c) @ pair_digits d"
    using assms(5) by (rule dec_digits_pair)
  also have "dec_digits (((h * 100 + a) * 100 + b) * 100 + c) =
      dec_digits h @ pair_digits a @ pair_digits b @ pair_digits c"
    using assms(1,2,3,4) by (rule dec_digits_pairs3)
  finally show ?thesis by simp
qed

lemma pair_cases:
  fixes c :: nat
  obtains (nz2) "c mod 10 \<noteq> 0" "c \<noteq> 0"
    | (nz1) "c mod 10 = 0" "c div 10 \<noteq> 0" "c \<noteq> 0"
    | (z) "c = 0"
  using pair_nz [of c] by (cases "c = 0"; cases "c mod 10 = 0") auto

lemmas code_simps = Let_def thresholds print_2_digits_eq memcpy2_head radix_table_second
  and_unsigned unsigned_def char_gt_digit div10_less

lemmas text_simps = significand_text_def dec_digits_head pair_digits_def stz_Cons' stz_Nil
  point_after_first_def digit_char_eq_0 range_bytes_Cons range_bytes_Nil div10_less


lemma split_pairs2:
  fixes n :: nat
  defines "h \<equiv> n div 10000" and "b \<equiv> n mod 10000 div 100" and "c \<equiv> n mod 100"
  shows "n = (h * 100 + b) * 100 + c"
    and "b < 100" and "c < 100"
    and "(n mod 10000 = 0) = (b = 0 \<and> c = 0)"
proof -
  have m: "n mod 10000 mod 100 = n mod 100"
    by (simp_all add: mod_mod_cancel)
  have 1: "n = h * 10000 + n mod 10000" by (simp add: h_def)
  have 3: "n mod 10000 = b * 100 + c"
    unfolding b_def c_def using div_mult_mod_eq [of "n mod 10000" 100] by (simp add: m)
  show "n = (h * 100 + b) * 100 + c"
    using 1 3 by simp
  show "b < 100" unfolding b_def by (intro less_mult_imp_div_less) simp
  show "c < 100" unfolding c_def by simp
  have z2: "(n mod 10000 = 0) = (n mod 10000 div 100 = 0 \<and> n mod 100 = 0)"
    using mod_zero_split [of 100 10000 n] by simp
  thus "(n mod 10000 = 0) = (b = 0 \<and> c = 0)" by (simp add: b_def c_def)
qed

lemma split_pairs4:
  fixes n :: nat
  defines "h \<equiv> n div 100000000" and "a \<equiv> n mod 100000000 div 1000000"
    and "b \<equiv> n mod 1000000 div 10000" and "c \<equiv> n mod 10000 div 100" and "d \<equiv> n mod 100"
  shows "n = (((h * 100 + a) * 100 + b) * 100 + c) * 100 + d"
    and "a < 100" and "b < 100" and "c < 100" and "d < 100"
proof -
  have m: "n mod 100000000 mod 1000000 = n mod 1000000"
    by (simp_all add: mod_mod_cancel)
  have 1: "n = h * 100000000 + n mod 100000000" by (simp add: h_def)
  have 2: "n mod 100000000 = a * 1000000 + n mod 1000000"
    unfolding a_def using div_mult_mod_eq [of "n mod 100000000" 1000000] by (simp add: m)
  have q: "n mod 1000000 div 1000000 = 0" by simp
  have sp': "n mod 1000000 mod 10000 = n mod 10000" "n mod 1000000 mod 100 = n mod 100"
    by (simp_all add: mod_mod_cancel)
  have 3: "n mod 1000000 = (b * 100 + c) * 100 + d"
    using split_pairs3(1) [of "n mod 1000000"] unfolding q sp' mod_mod_trivial
    by (simp add: b_def c_def d_def)
  show "n = (((h * 100 + a) * 100 + b) * 100 + c) * 100 + d"
    using 1 2 3 by simp
  show "a < 100" unfolding a_def by (intro less_mult_imp_div_less) simp
  show "b < 100" unfolding b_def by (intro less_mult_imp_div_less) simp
  show "c < 100" unfolding c_def by (intro less_mult_imp_div_less) simp
  show "d < 100" unfolding d_def by simp
qed

lemma p9_band78:
  assumes "1000000 \<le> n" "n < 100000000"
  shows "\<exists>mem'. print_9_digits n e p mem =
           (e + int (length (dec_digits n)) - 1, p + length (significand_text n), mem') \<and>
         range_bytes mem' p (p + length (significand_text n)) = significand_text n"
proof -
  define h where "h = n div 1000000"
  define a where "a = n mod 1000000 div 10000"
  define b where "b = n mod 10000 div 100"
  define c where "c = n mod 100"
  note sp = split_pairs3 [of n, folded h_def a_def b_def c_def]
  have h: "1 \<le> h" "h < 100"
    using assms by (simp_all add: h_def less_eq_div_iff_mult_less_eq less_mult_imp_div_less)
  note l = ladder6 [OF jinv_init78 [OF assms] assms(2), folded h_def a_def b_def c_def,
      unfolded sp(5,6)]
  have d: "dec_digits n = dec_digits h @ pair_digits a @ pair_digits b @ pair_digits c"
    using h sp(2,3,4) by (subst sp(1)) (simp only: dec_digits_pairs3)
  have r: "\<not> 100000000 \<le> n" "1000000 \<le> n" using assms by simp_all
  show ?thesis
  proof (cases c rule: pair_cases)
    case nz2
    show ?thesis
    proof (cases "h < 10")
      case True
      show ?thesis
        unfolding significand_text_def d print_9_digits_def using r h sp(2,3,4) nz2 True
        by (simp add: l code_simps text_simps)
    next
      case False
      show ?thesis
        unfolding significand_text_def d print_9_digits_def using r h sp(2,3,4) nz2 False
        by (simp add: l code_simps text_simps)
    qed
  next
    case nz1
    show ?thesis
        unfolding significand_text_def d print_9_digits_def using r h sp(2,3,4) nz1
        by (simp add: l code_simps text_simps)
  next
    case z
    show ?thesis
    proof (cases b rule: pair_cases)
      case nz2
      show ?thesis
        unfolding significand_text_def d print_9_digits_def using r h sp(2,3,4) z nz2
        by (simp add: l code_simps text_simps)
    next
      case nz1
      show ?thesis
        unfolding significand_text_def d print_9_digits_def using r h sp(2,3,4) z nz1
        by (simp add: l code_simps text_simps)
    next
      case z' : z
      show ?thesis
      proof (cases a rule: pair_cases)
        case nz2
        show ?thesis
          unfolding significand_text_def d print_9_digits_def using r h sp(2,3,4) z z' nz2
          by (simp add: l code_simps text_simps)
      next
        case nz1
        show ?thesis
          unfolding significand_text_def d print_9_digits_def using r h sp(2,3,4) z z' nz1
          by (simp add: l code_simps text_simps)
      next
        case z'' : z
        show ?thesis
          unfolding significand_text_def d print_9_digits_def using r h sp(2,3,4) z z' z''
          by (simp add: l code_simps text_simps)
      qed
    qed
  qed
qed

lemma p9_band56:
  assumes "10000 \<le> n" "n < 1000000"
  shows "\<exists>mem'. print_9_digits n e p mem =
           (e + int (length (dec_digits n)) - 1, p + length (significand_text n), mem') \<and>
         range_bytes mem' p (p + length (significand_text n)) = significand_text n"
proof -
  define h where "h = n div 10000"
  define b where "b = n mod 10000 div 100"
  define c where "c = n mod 100"
  note sp = split_pairs2 [of n, folded h_def b_def c_def]
  have h: "1 \<le> h" "h < 100"
    using assms by (simp_all add: h_def less_eq_div_iff_mult_less_eq less_mult_imp_div_less)
  note l = ladder4 [OF jinv_init56 [OF assms(2)] assms(2), folded h_def b_def c_def,
      unfolded sp(4)]
  have d: "dec_digits n = dec_digits h @ pair_digits b @ pair_digits c"
    using h sp(2,3) by (subst sp(1)) (simp only: dec_digits_pairs2)
  have r: "\<not> 100000000 \<le> n" "\<not> 1000000 \<le> n" "10000 \<le> n" using assms by simp_all
  show ?thesis
  proof (cases c rule: pair_cases)
    case nz2
    show ?thesis
      unfolding significand_text_def d print_9_digits_def using r h sp(2,3) nz2
      by (simp add: l code_simps text_simps)
  next
    case nz1
    show ?thesis
        unfolding significand_text_def d print_9_digits_def using r h sp(2,3) nz1
        by (simp add: l code_simps text_simps)
  next
    case z
    show ?thesis
    proof (cases b rule: pair_cases)
      case nz2
      show ?thesis
        unfolding significand_text_def d print_9_digits_def using r h sp(2,3) z nz2
        by (simp add: l code_simps text_simps)
    next
      case nz1
      show ?thesis
        unfolding significand_text_def d print_9_digits_def using r h sp(2,3) z nz1
        by (simp add: l code_simps text_simps)
    next
      case z' : z
      show ?thesis
        unfolding significand_text_def d print_9_digits_def using r h sp(2,3) z z'
        by (simp add: l code_simps text_simps)
    qed
  qed
qed

lemma p9_band34:
  assumes "100 \<le> n" "n < 10000"
  shows "\<exists>mem'. print_9_digits n e p mem =
           (e + int (length (dec_digits n)) - 1, p + length (significand_text n), mem') \<and>
         range_bytes mem' p (p + length (significand_text n)) = significand_text n"
proof -
  define h where "h = n div 100"
  define c where "c = n mod 100"
  have n: "n = h * 100 + c" by (simp add: h_def c_def)
  have c: "c < 100" by (simp add: c_def)
  have h: "1 \<le> h" "h < 100"
    using assms by (simp_all add: h_def less_eq_div_iff_mult_less_eq less_mult_imp_div_less)
  note l = ladder2 [OF jinv_init34 [OF assms(2)] assms(2), folded h_def c_def]
  have d: "dec_digits n = dec_digits h @ pair_digits c"
    using h c by (subst n) (simp only: dec_digits_pair)
  have r: "\<not> 100000000 \<le> n" "\<not> 1000000 \<le> n" "\<not> 10000 \<le> n" "100 \<le> n"
    using assms by simp_all
  show ?thesis
  proof (cases c rule: pair_cases)
    case nz2
    show ?thesis
      unfolding significand_text_def d print_9_digits_def using r h c nz2
      by (simp add: l code_simps text_simps)
  next
    case nz1
    show ?thesis
        unfolding significand_text_def d print_9_digits_def using r h c nz1
        by (simp add: l code_simps text_simps)
  next
    case z
    show ?thesis
      unfolding significand_text_def d print_9_digits_def using r h c z
      by (simp add: l code_simps text_simps)
  qed
qed

lemma p9_band12:
  assumes "1 \<le> n" "n < 100"
  shows "\<exists>mem'. print_9_digits n e p mem =
           (e + int (length (dec_digits n)) - 1, p + length (significand_text n), mem') \<and>
         range_bytes mem' p (p + length (significand_text n)) = significand_text n"
proof -
  have r: "\<not> 100000000 \<le> n" "\<not> 1000000 \<le> n" "\<not> 10000 \<le> n" "\<not> 100 \<le> n"
    using assms by simp_all
  show ?thesis
    unfolding significand_text_def print_9_digits_def using r assms
    by (simp add: code_simps text_simps)
qed

lemma p9_band9:
  assumes "100000000 \<le> n" "n < 1000000000"
  shows "\<exists>mem'. print_9_digits n e p mem =
           (e + int (length (dec_digits n)) - 1, p + 10, mem') \<and>
         range_bytes mem' p (p + 10) = point_after_first (dec_digits n)"
proof -
  define h where "h = n div 100000000"
  define a where "a = n mod 100000000 div 1000000"
  define b where "b = n mod 1000000 div 10000"
  define c where "c = n mod 10000 div 100"
  define d where "d = n mod 100"
  note sp = split_pairs4 [of n, folded h_def a_def b_def c_def d_def]
  have h: "1 \<le> h" "h < 10"
    using assms by (simp_all add: h_def less_eq_div_iff_mult_less_eq less_mult_imp_div_less)
  note l = ladder8 [OF jinv_init9 [OF assms] assms(2), folded h_def a_def b_def c_def d_def]
  have dd: "dec_digits n =
      dec_digits h @ pair_digits a @ pair_digits b @ pair_digits c @ pair_digits d"
    using h sp(2,3,4,5) by (subst sp(1)) (simp only: dec_digits_pairs4)
  show ?thesis
    unfolding dd print_9_digits_def using assms(1) h sp(2,3,4,5)
    by (simp add: l code_simps text_simps)
qed

lemma dec_digits_last:
  "\<exists>xs. dec_digits n = xs @ [digit_char (n mod 10)]"
  by (subst dec_digits.simps) simp

lemma text_no_trailing_zero:
  assumes "n mod 10 \<noteq> 0"
  shows "significand_text n = point_after_first (dec_digits n)"
proof -
  obtain xs where xs: "dec_digits n = xs @ [digit_char (n mod 10)]"
    using dec_digits_last by blast
  have "digit_char (n mod 10) \<noteq> CHR ''0''" using assms by (simp add: digit_char_eq_0)
  hence "strip_trailing_zeros (dec_digits n) = dec_digits n"
    unfolding xs by (simp add: stz_append stz_single)
  thus ?thesis by (simp add: significand_text_def)
qed

lemma is_digit_digit_char: "d < 10 \<Longrightarrow> is_digit (digit_char d)"
  by (simp add: is_digit_def digit_char_def)

lemma list_all_is_digit_dec_digits: "list_all is_digit (dec_digits n)"
proof (induction n rule: dec_digits.induct)
  case (1 n)
  show ?case
  proof (cases "n < 10")
    case True
    then show ?thesis by (subst dec_digits.simps) (simp add: is_digit_digit_char)
  next
    case False
    then show ?thesis using 1 by (subst dec_digits.simps) (simp add: is_digit_digit_char)
  qed
qed

lemma count_digits_all: "list_all is_digit cs \<Longrightarrow> count_digits cs = length cs"
  by (induction cs) (simp_all add: count_digits_def)

lemma count_digits_point_after_first:
  "list_all is_digit cs \<Longrightarrow> count_digits (point_after_first cs) = length cs"
proof (cases cs)
  case Nil
  then show ?thesis by (simp add: point_after_first_def count_digits_def)
next
  case (Cons d ds)
  assume "list_all is_digit cs"
  with Cons have "is_digit d" "count_digits ds = length ds" by (simp_all add: count_digits_all)
  moreover have "\<not> is_digit CHR ''.''" by (simp add: is_digit_def)
  ultimately show ?thesis using Cons by (simp add: point_after_first_def count_digits_def)
qed

lemma print_9_digits_exponent_cursor:
  assumes "1 \<le> n" "n \<le> 999999999"
  shows "\<exists>mem'. print_9_digits n e p mem = (e + int (length (dec_digits n)) - 1,
      p + length (if n < 100000000 then significand_text n else point_after_first (dec_digits n)), mem') \<and>
    range_bytes mem' p (p + length (if n < 100000000 then significand_text n else point_after_first (dec_digits n)))
      = (if n < 100000000 then significand_text n else point_after_first (dec_digits n))"
proof -
  consider "n < 100" | "100 \<le> n" "n < 10000" | "10000 \<le> n" "n < 1000000"
    | "1000000 \<le> n" "n < 100000000" | "100000000 \<le> n" "n < 1000000000"
    using assms(2) by linarith
  then show ?thesis
  proof cases
    case 1
    then show ?thesis using p9_band12 [OF assms(1), of e p mem] by simp
  next
    case 2
    then show ?thesis using p9_band34 [of n e p mem] by simp
  next
    case 3
    then show ?thesis using p9_band56 [of n e p mem] by simp
  next
    case 4
    then show ?thesis using p9_band78 [of n e p mem] by simp
  next
    case 5
    obtain mem' where m: "print_9_digits n e p mem = (e + int (length (dec_digits n)) - 1, p + 10, mem')"
      "range_bytes mem' p (p + 10) = point_after_first (dec_digits n)"
      using p9_band9 [OF 5, of e p mem] by blast
    have "length (range_bytes mem' p (p + 10)) = 10" by (simp add: range_bytes_def)
    hence "length (point_after_first (dec_digits n)) = 10" using m(2) by simp
    thus ?thesis using 5 m by simp
  qed
qed

lemma print_9_digits_at_10:
  "\<exists>mem'. print_9_digits 10 e p mem = (e + 1, p + 1, mem') \<and>
     range_bytes mem' p (p + 1) = [digit_char 1]"
proof -
  have t: "significand_text 10 = [digit_char 1]" "length (dec_digits 10) = 2"
    by (simp_all add: text_simps)
  show ?thesis using p9_band12 [of 10 e p mem] unfolding t by (simp add: ac_simps)
qed

lemma to_chars_float_suffix:
  "to_chars_float s32 e p fmt mem =
    (case print_9_digits s32 e p mem of (e', p', m') \<Rightarrow>
       if e' = 0 then (if fmt = scientific then (p' + 4, memcpy_str m' p' ''e+00'') else (p', m'))
       else (p' + 4, print_2_digits (u32 (nat \<bar>e'\<bar>)) (p' + 2)
                       (memcpy_str m' p' [CHR ''e'', exponent_sign e'])))"
  by (simp add: to_chars_float_def Let_def exponent_sign_def split: prod.splits)

lemma to_chars_double_suffix:
  "to_chars_double s e p fmt mem =
    (case to_chars_double_significand s e p mem of (e', p', m') \<Rightarrow>
       if e' = 0 then (if fmt = scientific then (p' + 4, memcpy_str m' p' ''e+00'') else (p', m'))
       else if \<bar>e'\<bar> \<ge> 100 then
         (p' + 5, print_1_digit (shr (u32 (u16 (u32 (u32 (nat \<bar>e'\<bar>) * u32 6554)) * u32 5)) 15) (p' + 2 + 2)
                    (print_2_digits (shr (u32 (u32 (nat \<bar>e'\<bar>) * u32 6554)) 16) (p' + 2)
                       (memcpy_str m' p' [CHR ''e'', exponent_sign e'])))
       else (p' + 4, print_2_digits (u32 (nat \<bar>e'\<bar>)) (p' + 2)
                       (memcpy_str m' p' [CHR ''e'', exponent_sign e'])))"
  by (simp add: to_chars_double_def Let_def exponent_sign_def split: prod.splits)

lemma exponent_digits_raw:
  assumes "100 \<le> x" "x \<le> 999"
  shows "shr (u32 (u32 x * u32 6554)) 16 = x div 10"
    and "shr (u32 (u16 (u32 (u32 x * u32 6554)) * u32 5)) 15 = x mod 10"
  using exponent_digits_eq [OF assms] by (simp_all add: exponent_digits_def Let_def)

lemma memcpy_str_2: "memcpy_str m p [a, b] = m(p := a, Suc p := b)"
  by simp

lemma memcpy_str_4: "memcpy_str m p [a, b, c, d] =
    m(p := a, Suc p := b, Suc (Suc p) := c, Suc (Suc (Suc p)) := d)"
  by simp

lemma exponent_suffix_ok_2:
  "a < 100 \<Longrightarrow> exponent_suffix_ok (CHR ''e'' # exponent_sign e # pair_digits a)"
  by (simp add: exponent_suffix_ok_def exponent_sign_def pair_digits_def is_digit_digit_char
      div10_less)

lemma exponent_suffix_ok_3:
  "a < 1000 \<Longrightarrow>
     exponent_suffix_ok (CHR ''e'' # exponent_sign e # pair_digits (a div 10) @ [digit_char (a mod 10)])"
proof -
  assume "a < 1000"
  hence "a div 10 < 100" by simp
  hence "a div 10 div 10 < 10" by (rule div10_less)
  thus ?thesis
    by (simp add: exponent_suffix_ok_def exponent_sign_def pair_digits_def is_digit_digit_char)
qed

lemma float_suffix_bytes:
  assumes "print_9_digits s32 e p mem = (e1, b1, m1)" "\<bar>e1\<bar> \<le> 99" "e1 \<noteq> 0 \<or> fmt = scientific"
  shows "\<exists>m. to_chars_float s32 e p fmt mem = (b1 + 4, m) \<and>
           range_bytes m b1 (b1 + 4) = CHR ''e'' # exponent_sign e1 # pair_digits (nat \<bar>e1\<bar>) \<and>
           range_bytes m p b1 = range_bytes m1 p b1"
proof (cases "e1 = 0")
  case True
  have r: "\<And>m p q. range_bytes (m(q := CHR ''e'', Suc q := CHR ''+'', Suc (Suc q) := CHR ''0'',
        Suc (Suc (Suc q)) := CHR ''0'')) p q = range_bytes m p q"
    by (rule range_bytes_cong) simp
  show ?thesis using True assms
    by (simp add: to_chars_float_suffix range_bytes_Cons range_bytes_Nil pair_digits_def
        exponent_sign_def digit_char_simps r)
next
  case False
  have n: "nat \<bar>e1\<bar> < 100" using assms(2) by simp
  hence u: "u32 (nat \<bar>e1\<bar>) = nat \<bar>e1\<bar>" by (simp add: u32_def)
  have r: "\<And>m p q a b c d. range_bytes (m(q := a, Suc q := b, Suc (Suc q) := c,
        Suc (Suc (Suc q)) := d)) p q = range_bytes m p q"
    by (rule range_bytes_cong) simp
  show ?thesis using False assms(1) n
    by (simp add: to_chars_float_suffix u print_2_digits_eq range_bytes_Cons range_bytes_Nil
        pair_digits_def r)
qed

lemma double_suffix_bytes:
  assumes "to_chars_double_significand s e p mem = (e1, b1, m1)" "\<bar>e1\<bar> \<le> 999"
    "e1 \<noteq> 0 \<or> fmt = scientific"
  shows "\<exists>m. to_chars_double s e p fmt mem = (b1 + (if \<bar>e1\<bar> < 100 then 4 else 5), m) \<and>
           range_bytes m b1 (b1 + (if \<bar>e1\<bar> < 100 then 4 else 5)) =
             CHR ''e'' # exponent_sign e1 #
               (if \<bar>e1\<bar> < 100 then pair_digits (nat \<bar>e1\<bar>)
                else pair_digits (nat \<bar>e1\<bar> div 10) @ [digit_char (nat \<bar>e1\<bar> mod 10)]) \<and>
           range_bytes m p b1 = range_bytes m1 p b1"
proof -
  consider (z) "e1 = 0" | (two) "e1 \<noteq> 0" "\<bar>e1\<bar> < 100" | (three) "100 \<le> \<bar>e1\<bar>" by linarith
  then show ?thesis
  proof cases
    case z
    have r: "\<And>m p q. range_bytes (m(q := CHR ''e'', Suc q := CHR ''+'', Suc (Suc q) := CHR ''0'',
          Suc (Suc (Suc q)) := CHR ''0'')) p q = range_bytes m p q"
      by (rule range_bytes_cong) simp
    show ?thesis using z assms
      by (simp add: to_chars_double_suffix range_bytes_Cons range_bytes_Nil pair_digits_def
          exponent_sign_def digit_char_simps r)
  next
    case two
    have n: "nat \<bar>e1\<bar> < 100" using two by simp
    hence u: "u32 (nat \<bar>e1\<bar>) = nat \<bar>e1\<bar>" by (simp add: u32_def)
    have r: "\<And>m p q a b c d. range_bytes (m(q := a, Suc q := b, Suc (Suc q) := c,
          Suc (Suc (Suc q)) := d)) p q = range_bytes m p q"
      by (rule range_bytes_cong) simp
    show ?thesis using two assms(1) n
      by (simp add: to_chars_double_suffix u print_2_digits_eq range_bytes_Cons range_bytes_Nil
          pair_digits_def r)
  next
    case three
    let ?x = "nat \<bar>e1\<bar>"
    have x: "100 \<le> ?x" "?x \<le> 999" using three assms(2) by simp_all
    hence u: "u32 ?x = ?x" by (simp add: u32_def)
    note ed = exponent_digits_raw [OF x, unfolded u]
    have q: "?x div 10 < 100" using x(2) by simp
    have r: "\<And>m p q a b c d f. range_bytes (m(q := a, Suc q := b, Suc (Suc q) := c,
          Suc (Suc (Suc q)) := d, Suc (Suc (Suc (Suc q))) := f)) p q = range_bytes m p q"
      by (rule range_bytes_cong) simp
    have ne: "e1 \<noteq> 0" "\<not> \<bar>e1\<bar> < 100" using three by simp_all
    show ?thesis using ne assms(1) three q
      by (simp add: to_chars_double_suffix u ed print_2_digits_eq print_1_digit_def
          range_bytes_Cons range_bytes_Nil pair_digits_def r)
  qed
qed

lemma sub32_diff:
  assumes "b \<le> a" "a - b < 2 ^ 32"
  shows "sub32 (u32 a) (u32 b) = a - b"
proof -
  define M :: nat where "M = 2 ^ 32"
  define r where "r = a - b"
  define y where "y = b mod M"
  have M: "0 < M" by (simp add: M_def)
  have a: "a = b + r" using assms(1) by (simp add: r_def)
  have r: "r < M" using assms(2) by (simp add: r_def M_def)
  have y: "y < M" using M by (simp add: y_def)
  have x: "a mod M = (y + r) mod M" unfolding a y_def by (simp add: mod_add_left_eq)
  have "(a mod M + M - y) mod M = r"
  proof (cases "y + r < M")
    case True
    hence "a mod M = y + r" using x by simp
    hence "a mod M + M - y = r + M" by simp
    thus ?thesis using r by simp
  next
    case False
    hence "M \<le> y + r" by simp
    hence "(y + r) mod M = (y + r - M) mod M" by (rule le_mod_geq)
    moreover have "y + r - M < M" using y r by simp
    ultimately have "a mod M = y + r - M" using x by simp
    hence "a mod M + M - y = r" using False y by simp
    thus ?thesis using r by simp
  qed
  thus ?thesis by (simp add: sub32_def u32_def M_def y_def r_def)
qed

lemma split_blocks_large:
  assumes "100000000 \<le> s" "s < 100000000000000000"
  shows "split_blocks s e = (s div 100000000, s mod 100000000, e + 8, s mod 100000000 = 0)"
proof -
  have "s div 100000000 < 1000000000" using assms(2) by (intro less_mult_imp_div_less) simp
  hence fb: "u32 (s div 100000000) = s div 100000000" by (simp add: u32_def)
  have le: "s div 100000000 * 100000000 \<le> s" by simp
  have d: "s - s div 100000000 * 100000000 = s mod 100000000"
    by (simp add: minus_div_mult_eq_mod)
  have "s mod 100000000 < 2 ^ 32"
    by (rule less_trans [of _ 100000000]) simp_all
  hence "sub32 (u32 s) (u32 (s div 100000000 * 100000000)) = s mod 100000000"
    using sub32_diff [OF le] unfolding d by simp
  thus ?thesis using assms(1) by (simp add: split_blocks_def Let_def fb)
qed

lemma split_blocks_small:
  assumes "s < 100000000"
  shows "split_blocks s e = (s, 0, e, True)"
proof -
  have "s < 2 ^ 32" using assms by simp
  thus ?thesis using assms by (simp add: split_blocks_def Let_def u32_def)
qed

lemma print_9_digits_fst:
  assumes "1 \<le> n" "n \<le> 999999999"
  shows "fst (print_9_digits n e p mem) = e + int (length (dec_digits n)) - 1"
  using print_9_digits_exponent_cursor [OF assms, of e p mem] by auto

lemma to_chars_double_significand_small:
  "s < 100000000 \<Longrightarrow> to_chars_double_significand s e p mem = print_9_digits s e p mem"
  by (simp add: to_chars_double_significand_def split_blocks_small)

lemma length_dec_digits_15: "length (dec_digits 15) = 2"
  by (simp add: dec_digits_head pair_digits_def)

lemma float_suffix_case:
  assumes "\<bar>fst (print_9_digits s32 e buffer mem)\<bar> \<le> 99"
    and "fst (print_9_digits s32 e buffer mem) \<noteq> 0 \<or> fmt = scientific"
  shows "case print_9_digits s32 e buffer mem of (e', buffer', mem') \<Rightarrow>
            (case to_chars_float s32 e buffer fmt mem of (buffer'', mem'') \<Rightarrow>
               range_bytes mem'' buffer' buffer'' =
                 CHR ''e'' # exponent_sign e' # pair_digits (nat \<bar>e'\<bar>) \<and>
               exponent_suffix_ok (range_bytes mem'' buffer' buffer''))"
proof -
  obtain e1 b1 m1 where p1: "print_9_digits s32 e buffer mem = (e1, b1, m1)"
    by (cases "print_9_digits s32 e buffer mem") auto
  have a: "\<bar>e1\<bar> \<le> 99" "e1 \<noteq> 0 \<or> fmt = scientific" using assms p1 by simp_all
  obtain m where m: "to_chars_float s32 e buffer fmt mem = (b1 + 4, m)"
    "range_bytes m b1 (b1 + 4) = CHR ''e'' # exponent_sign e1 # pair_digits (nat \<bar>e1\<bar>)"
    using float_suffix_bytes [OF p1 a] by blast
  have "nat \<bar>e1\<bar> < 100" using a(1) by simp
  hence "exponent_suffix_ok (CHR ''e'' # exponent_sign e1 # pair_digits (nat \<bar>e1\<bar>))"
    by (rule exponent_suffix_ok_2)
  thus ?thesis unfolding p1 m(1) by (simp add: m(2))
qed

lemma double_suffix_case:
  assumes "\<bar>fst (to_chars_double_significand s e buffer mem)\<bar> \<le> 999"
    and "fst (to_chars_double_significand s e buffer mem) \<noteq> 0 \<or> fmt = scientific"
  shows "case to_chars_double_significand s e buffer mem of (e', buffer', mem') \<Rightarrow>
            (case to_chars_double s e buffer fmt mem of (buffer'', mem'') \<Rightarrow>
               range_bytes mem'' buffer' buffer'' =
                 CHR ''e'' # exponent_sign e' #
                   (if \<bar>e'\<bar> < 100 then pair_digits (nat \<bar>e'\<bar>)
                    else pair_digits (nat \<bar>e'\<bar> div 10) @ [digit_char (nat \<bar>e'\<bar> mod 10)]) \<and>
               exponent_suffix_ok (range_bytes mem'' buffer' buffer''))"
proof -
  obtain e1 b1 m1 where p1: "to_chars_double_significand s e buffer mem = (e1, b1, m1)"
    by (cases "to_chars_double_significand s e buffer mem") auto
  have a: "\<bar>e1\<bar> \<le> 999" "e1 \<noteq> 0 \<or> fmt = scientific" using assms p1 by simp_all
  let ?k = "if \<bar>e1\<bar> < 100 then 4 else 5 :: nat"
  let ?t = "CHR ''e'' # exponent_sign e1 #
                   (if \<bar>e1\<bar> < 100 then pair_digits (nat \<bar>e1\<bar>)
                    else pair_digits (nat \<bar>e1\<bar> div 10) @ [digit_char (nat \<bar>e1\<bar> mod 10)])"
  obtain m where m: "to_chars_double s e buffer fmt mem = (b1 + ?k, m)"
    "range_bytes m b1 (b1 + ?k) = ?t"
    using double_suffix_bytes [OF p1 a] by blast
  have "exponent_suffix_ok ?t"
  proof (cases "\<bar>e1\<bar> < 100")
    case True
    hence "nat \<bar>e1\<bar> < 100" by simp
    thus ?thesis using True by (simp add: exponent_suffix_ok_2)
  next
    case False
    have "nat \<bar>e1\<bar> < 1000" using a(1) by simp
    thus ?thesis using False exponent_suffix_ok_3 [of "nat \<bar>e1\<bar>" e1] by simp
  qed
  thus ?thesis unfolding p1 m(1) by (simp add: m(2))
qed

lemma unchanged_outside_refl: "unchanged_outside mem mem a b"
  by (simp add: unchanged_outside_def)

lemma unchanged_outside_upd:
  "a \<le> k \<Longrightarrow> k < b \<Longrightarrow>
     unchanged_outside mem (m(k := v)) a b = unchanged_outside mem m a b"
  by (auto simp: unchanged_outside_def)

lemma unchanged_outside_trans:
  "unchanged_outside m1 m2 a b \<Longrightarrow> unchanged_outside m2 m3 c d \<Longrightarrow>
     lo \<le> a \<Longrightarrow> lo \<le> c \<Longrightarrow> b \<le> hi \<Longrightarrow> d \<le> hi \<Longrightarrow>
     unchanged_outside m1 m3 lo hi"
  by (auto simp: unchanged_outside_def)

lemmas frame_simps = Let_def print_2_digits_def print_1_digit_def memcpy2_def unsigned_def
  and_unsigned unchanged_outside_refl unchanged_outside_upd

lemma frame_print_9_digits:
  "case print_9_digits n e p mem of (e', p', m') \<Rightarrow>
     p \<le> p' \<and> p' \<le> p + 10 \<and> unchanged_outside mem m' p (p + 10)"
  unfolding print_9_digits_def
  by (simp add: frame_simps)

lemma frame_print_17_digits:
  "case print_17_digits fb sb e p mem of (e', p', m') \<Rightarrow>
     p' = p + 18 \<and> unchanged_outside mem m' p (p + 18)"
  unfolding print_17_digits_def
  by (simp add: frame_simps)

lemma frame_print_first_block:
  "case print_first_block fb e p mem of (e', p', m') \<Rightarrow>
     p \<le> p' \<and> p' \<le> p + 9 \<and> unchanged_outside mem m' p (p + 9)"
  unfolding print_first_block_def
  by (simp add: frame_simps)

lemma frame_print_second_block:
  "case print_second_block sb p mem of (p', m') \<Rightarrow>
     p \<le> p' \<and> p' \<le> p + 8 \<and> unchanged_outside mem m' p (p + 8)"
  unfolding print_second_block_def
  by (simp add: frame_simps)

lemma frame_to_chars_double_significand:
  "case to_chars_double_significand s e p mem of (e', p', m') \<Rightarrow>
     p \<le> p' \<and> p' \<le> p + 18 \<and> unchanged_outside mem m' p (p + 18)"
proof -
  obtain fb sb e1 nsb where sp: "split_blocks s e = (fb, sb, e1, nsb)"
    by (cases "split_blocks s e") auto
  show ?thesis
  proof (cases nsb)
    case True
    obtain e2 p2 m2 where r: "print_9_digits fb e1 p mem = (e2, p2, m2)"
      by (cases "print_9_digits fb e1 p mem") auto
    have "p \<le> p2 \<and> p2 \<le> p + 10 \<and> unchanged_outside mem m2 p (p + 10)"
      using frame_print_9_digits [where n = fb and e = e1 and p = p and mem = mem] unfolding r by simp
    hence "p \<le> p2 \<and> p2 \<le> p + 18 \<and> unchanged_outside mem m2 p (p + 18)"
      using unchanged_outside_trans [OF _ unchanged_outside_refl [of m2 p p], of mem p "p + 10" p "p + 18"]
      by simp
    thus ?thesis using True by (simp add: to_chars_double_significand_def sp r)
  next
    case False
    show ?thesis
    proof (cases "100000000 \<le> fb")
      case True
      show ?thesis
        using frame_print_17_digits [where fb = fb and sb = sb and e = e1 and p = p and mem = mem] True \<open>\<not> nsb\<close>
        by (simp add: to_chars_double_significand_def sp split: prod.splits)
    next
      case small: False
      obtain e2 p2 m2 where r: "print_first_block fb e1 p mem = (e2, p2, m2)"
        by (cases "print_first_block fb e1 p mem") auto
      obtain p3 m3 where t: "print_second_block sb p2 m2 = (p3, m3)"
        by (cases "print_second_block sb p2 m2") auto
      have a: "p \<le> p2" "p2 \<le> p + 9" "unchanged_outside mem m2 p (p + 9)"
        using frame_print_first_block [where fb = fb and e = e1 and p = p and mem = mem] unfolding r by simp_all
      have b: "p2 \<le> p3" "p3 \<le> p2 + 8" "unchanged_outside m2 m3 p2 (p2 + 8)"
        using frame_print_second_block [where sb = sb and p = p2 and mem = m2] unfolding t by simp_all
      have "unchanged_outside mem m3 p (p + 18)"
        using a(3) b(3) by (rule unchanged_outside_trans) (use a b in simp_all)
      thus ?thesis using a b small \<open>\<not> nsb\<close>
        by (simp add: to_chars_double_significand_def sp r t)
    qed
  qed
qed

lemma frame_to_chars_float:
  "case to_chars_float s32 e p fmt mem of (p', m') \<Rightarrow>
     p \<le> p' \<and> p' \<le> p + 14 \<and> unchanged_outside mem m' p (p + 14)"
proof -
  obtain e1 p1 m1 where r: "print_9_digits s32 e p mem = (e1, p1, m1)"
    by (cases "print_9_digits s32 e p mem") auto
  have a: "p \<le> p1" "p1 \<le> p + 10" "unchanged_outside mem m1 p (p + 10)"
    using frame_print_9_digits [where n = s32 and e = e and p = p and mem = mem] unfolding r by simp_all
  obtain p2 m2 where t: "to_chars_float s32 e p fmt mem = (p2, m2)"
    by (cases "to_chars_float s32 e p fmt mem") auto
  have b: "p1 \<le> p2 \<and> p2 \<le> p1 + 4 \<and> unchanged_outside m1 m2 p1 (p1 + 4)"
    using t unfolding to_chars_float_suffix r
    by (auto simp: frame_simps split: if_splits)
  have "unchanged_outside mem m2 p (p + 14)"
    using a(3) b [THEN conjunct2, THEN conjunct2]
    by (rule unchanged_outside_trans) (use a b in simp_all)
  thus ?thesis unfolding t using a b by simp
qed

lemma frame_to_chars_double:
  "case to_chars_double s e p fmt mem of (p', m') \<Rightarrow>
     p \<le> p' \<and> p' \<le> p + 23 \<and> unchanged_outside mem m' p (p + 23)"
proof -
  obtain e1 p1 m1 where r: "to_chars_double_significand s e p mem = (e1, p1, m1)"
    by (cases "to_chars_double_significand s e p mem") auto
  have a: "p \<le> p1" "p1 \<le> p + 18" "unchanged_outside mem m1 p (p + 18)"
    using frame_to_chars_double_significand [where s = s and e = e and p = p and mem = mem] unfolding r by simp_all
  obtain p2 m2 where t: "to_chars_double s e p fmt mem = (p2, m2)"
    by (cases "to_chars_double s e p fmt mem") auto
  have b: "p1 \<le> p2 \<and> p2 \<le> p1 + 5 \<and> unchanged_outside m1 m2 p1 (p1 + 5)"
    using t unfolding to_chars_double_suffix r
    by (auto simp: frame_simps split: if_splits)
  have "unchanged_outside mem m2 p (p + 23)"
    using a(3) b [THEN conjunct2, THEN conjunct2]
    by (rule unchanged_outside_trans) (use a b in simp_all)
  thus ?thesis unfolding t using a b by simp
qed

lemma first_block_band78:
  assumes "1000000 \<le> n" "n < 100000000"
  shows "\<exists>m'. print_first_block n e p mem =
           (e + int (length (dec_digits n)) - 1, p + 1 + length (dec_digits n), m') \<and>
         range_bytes m' p (p + 1 + length (dec_digits n)) =
           hd (dec_digits n) # CHR ''.'' # tl (dec_digits n)"
proof -
  define h where "h = n div 1000000"
  define a where "a = n mod 1000000 div 10000"
  define b where "b = n mod 10000 div 100"
  define c where "c = n mod 100"
  note sp = split_pairs3 [of n, folded h_def a_def b_def c_def]
  have h: "1 \<le> h" "h < 100"
    using assms by (simp_all add: h_def less_eq_div_iff_mult_less_eq less_mult_imp_div_less)
  note l = ladder6 [OF jinv_init78 [OF assms] assms(2), folded h_def a_def b_def c_def]
  have d: "dec_digits n = dec_digits h @ pair_digits a @ pair_digits b @ pair_digits c"
    using h sp(2,3,4) by (subst sp(1)) (simp only: dec_digits_pairs3)
  show ?thesis
  proof (cases "h < 10")
    case True
    show ?thesis
      unfolding d print_first_block_def using assms(1) h sp(2,3,4) True
      by (simp add: l(1,3,5,7) code_simps text_simps)
  next
    case False
    show ?thesis
      unfolding d print_first_block_def using assms(1) h sp(2,3,4) False
      by (simp add: l(1,3,5,7) code_simps text_simps)
  qed
qed

lemma first_block_band56:
  assumes "10000 \<le> n" "n < 1000000"
  shows "\<exists>m'. print_first_block n e p mem =
           (e + int (length (dec_digits n)) - 1, p + 1 + length (dec_digits n), m') \<and>
         range_bytes m' p (p + 1 + length (dec_digits n)) =
           hd (dec_digits n) # CHR ''.'' # tl (dec_digits n)"
proof -
  define h where "h = n div 10000"
  define b where "b = n mod 10000 div 100"
  define c where "c = n mod 100"
  note sp = split_pairs2 [of n, folded h_def b_def c_def]
  have h: "1 \<le> h" "h < 100"
    using assms by (simp_all add: h_def less_eq_div_iff_mult_less_eq less_mult_imp_div_less)
  note l = ladder4 [OF jinv_init56 [OF assms(2)] assms(2), folded h_def b_def c_def]
  have d: "dec_digits n = dec_digits h @ pair_digits b @ pair_digits c"
    using h sp(2,3) by (subst sp(1)) (simp only: dec_digits_pairs2)
  have r: "\<not> 1000000 \<le> n" "10000 \<le> n" using assms by simp_all
  show ?thesis
  proof (cases "h < 10")
    case True
    show ?thesis
      unfolding d print_first_block_def using r h sp(2,3) True
      by (simp add: l(1,3,5) code_simps text_simps)
  next
    case False
    show ?thesis
      unfolding d print_first_block_def using r h sp(2,3) False
      by (simp add: l(1,3,5) code_simps text_simps)
  qed
qed

lemma first_block_band34:
  assumes "100 \<le> n" "n < 10000"
  shows "\<exists>m'. print_first_block n e p mem =
           (e + int (length (dec_digits n)) - 1, p + 1 + length (dec_digits n), m') \<and>
         range_bytes m' p (p + 1 + length (dec_digits n)) =
           hd (dec_digits n) # CHR ''.'' # tl (dec_digits n)"
proof -
  define h where "h = n div 100"
  define c where "c = n mod 100"
  have n: "n = h * 100 + c" by (simp add: h_def c_def)
  have c: "c < 100" by (simp add: c_def)
  have h: "1 \<le> h" "h < 100"
    using assms by (simp_all add: h_def less_eq_div_iff_mult_less_eq less_mult_imp_div_less)
  note l = ladder2 [OF jinv_init34 [OF assms(2)] assms(2), folded h_def c_def]
  have d: "dec_digits n = dec_digits h @ pair_digits c"
    using h c by (subst n) (simp only: dec_digits_pair)
  have r: "\<not> 1000000 \<le> n" "\<not> 10000 \<le> n" "100 \<le> n" using assms by simp_all
  show ?thesis
  proof (cases "h < 10")
    case True
    show ?thesis
      unfolding d print_first_block_def using r h c True
      by (simp add: l(1,3) code_simps text_simps)
  next
    case False
    show ?thesis
      unfolding d print_first_block_def using r h c False
      by (simp add: l(1,3) code_simps text_simps)
  qed
qed

lemma first_block_band12:
  assumes "1 \<le> n" "n < 100"
  shows "\<exists>m'. print_first_block n e p mem =
           (e + int (length (dec_digits n)) - 1, p + 1 + length (dec_digits n), m') \<and>
         range_bytes m' p (p + 1 + length (dec_digits n)) =
           hd (dec_digits n) # CHR ''.'' # tl (dec_digits n)"
proof -
  have r: "\<not> 1000000 \<le> n" "\<not> 10000 \<le> n" "\<not> 100 \<le> n" using assms by simp_all
  show ?thesis
    unfolding print_first_block_def using r assms
    by (simp add: code_simps text_simps)
qed

lemma first_block_text:
  assumes "1 \<le> n" "n < 100000000"
  shows "\<exists>m'. print_first_block n e p mem =
           (e + int (length (dec_digits n)) - 1, p + 1 + length (dec_digits n), m') \<and>
         range_bytes m' p (p + 1 + length (dec_digits n)) =
           hd (dec_digits n) # CHR ''.'' # tl (dec_digits n)"
proof -
  consider "n < 100" | "100 \<le> n" "n < 10000" | "10000 \<le> n" "n < 1000000"
    | "1000000 \<le> n" using assms(2) by linarith
  then show ?thesis
  proof cases
    case 1
    then show ?thesis using first_block_band12 [OF assms(1)] by simp
  next
    case 2
    then show ?thesis by (rule first_block_band34)
  next
    case 3
    then show ?thesis by (rule first_block_band56)
  next
    case 4
    then show ?thesis using assms(2) by (rule first_block_band78)
  qed
qed

lemma second_block_text:
  assumes "1 \<le> n" "n < 100000000"
  shows "strip_trailing_zeros (eight_digits n) \<noteq> [] \<and>
    (\<exists>m'. print_second_block n q mem = (q + length (strip_trailing_zeros (eight_digits n)), m') \<and>
         range_bytes m' q (q + length (strip_trailing_zeros (eight_digits n))) =
           strip_trailing_zeros (eight_digits n))"
proof -
  define a where "a = n div 1000000"
  define b where "b = n mod 1000000 div 10000"
  define c where "c = n mod 10000 div 100"
  define d where "d = n mod 100"
  note sp = split_pairs3 [of n, folded a_def b_def c_def d_def]
  have a: "a < 100"
    using assms by (simp_all add: a_def less_mult_imp_div_less)
  note l = ladder6 [OF jinv_init_second [OF assms(2)] assms(2), folded a_def b_def c_def d_def,
      unfolded sp(5,6)]
  have e: "eight_digits n = pair_digits a @ pair_digits b @ pair_digits c @ pair_digits d"
    by (simp add: eight_digits_def a_def b_def c_def d_def)
  have nz: "a = 0 \<Longrightarrow> b = 0 \<Longrightarrow> c = 0 \<Longrightarrow> d = 0 \<Longrightarrow> False"
    using sp(1) assms(1) by simp
  show ?thesis
  proof (cases d rule: pair_cases)
    case nz2
    show ?thesis
      unfolding e print_second_block_def u64_inc_shr16 Let_def using a sp(2,3,4) nz2 l
      by (simp add: code_simps text_simps)
  next
    case nz1
    show ?thesis
      unfolding e print_second_block_def u64_inc_shr16 Let_def using a sp(2,3,4) nz1 l
      by (simp add: code_simps text_simps)
  next
    case z
    show ?thesis
    proof (cases c rule: pair_cases)
      case nz2
      show ?thesis
        unfolding e print_second_block_def u64_inc_shr16 Let_def using a sp(2,3,4) z nz2 l
        by (simp add: code_simps text_simps)
    next
      case nz1
      show ?thesis
        unfolding e print_second_block_def u64_inc_shr16 Let_def using a sp(2,3,4) z nz1 l
        by (simp add: code_simps text_simps)
    next
      case z' : z
      show ?thesis
      proof (cases b rule: pair_cases)
        case nz2
        show ?thesis
          unfolding e print_second_block_def u64_inc_shr16 Let_def using a sp(2,3,4) z z' nz2 l
          by (simp add: code_simps text_simps)
      next
        case nz1
        show ?thesis
          unfolding e print_second_block_def u64_inc_shr16 Let_def using a sp(2,3,4) z z' nz1 l
          by (simp add: code_simps text_simps)
      next
        case z'' : z
        show ?thesis
        proof (cases a rule: pair_cases)
          case nz2
          show ?thesis
            unfolding e print_second_block_def u64_inc_shr16 Let_def
            using a sp(2,3,4) z z' z'' nz2 l
            by (simp add: code_simps text_simps)
        next
          case nz1
          show ?thesis
            unfolding e print_second_block_def u64_inc_shr16 Let_def
            using a sp(2,3,4) z z' z'' nz1 l
            by (simp add: code_simps text_simps)
        next
          case z''' : z
          show ?thesis using nz z z' z'' z''' by simp
        qed
      qed
    qed
  qed
qed

lemma print_17_digits_text:
  assumes "100000000 \<le> fb" "fb < 1000000000" "sb < 100000000"
  shows "\<exists>m'. print_17_digits fb sb e p mem = (e + 8, p + 18, m') \<and>
           range_bytes m' p (p + 18) = point_after_first (dec_digits fb @ eight_digits sb) \<and>
           length (dec_digits fb) = 9"
proof -
  define h where "h = fb div 100000000"
  define a where "a = fb mod 100000000 div 1000000"
  define b where "b = fb mod 1000000 div 10000"
  define c where "c = fb mod 10000 div 100"
  define d where "d = fb mod 100"
  note sp = split_pairs4 [of fb, folded h_def a_def b_def c_def d_def]
  have h: "1 \<le> h" "h < 10"
    using assms by (simp_all add: h_def less_eq_div_iff_mult_less_eq less_mult_imp_div_less)
  note l = ladder8 [OF jinv_init9 [OF assms(1,2)] assms(2), folded h_def a_def b_def c_def d_def]
  have dd: "dec_digits fb =
      dec_digits h @ pair_digits a @ pair_digits b @ pair_digits c @ pair_digits d"
    using h sp(2,3,4,5) by (subst sp(1)) (simp only: dec_digits_pairs4)
  define a' where "a' = sb div 1000000"
  define b' where "b' = sb mod 1000000 div 10000"
  define c' where "c' = sb mod 10000 div 100"
  define d' where "d' = sb mod 100"
  note sp' = split_pairs3 [of sb, folded a'_def b'_def c'_def d'_def]
  have a': "a' < 100"
    using assms by (simp_all add: a'_def less_mult_imp_div_less)
  note l' = ladder6 [OF jinv_init_second [OF assms(3)] assms(3),
      folded a'_def b'_def c'_def d'_def]
  have e: "eight_digits sb = pair_digits a' @ pair_digits b' @ pair_digits c' @ pair_digits d'"
    by (simp add: eight_digits_def a'_def b'_def c'_def d'_def)
  show ?thesis
    unfolding dd e print_17_digits_def u64_inc_shr16 Let_def
    using h sp(2,3,4,5) a' sp'(2,3,4) l'(1,3,5,7)
    by (simp add: l code_simps text_simps)
qed

lemma dec_digits_blocks:
  assumes "1 \<le> fb" "sb < 100000000"
  shows "dec_digits (fb * 100000000 + sb) = dec_digits fb @ eight_digits sb"
proof -
  define a where "a = sb div 1000000"
  define b where "b = sb mod 1000000 div 10000"
  define c where "c = sb mod 10000 div 100"
  define d where "d = sb mod 100"
  note sp = split_pairs3 [of sb, folded a_def b_def c_def d_def]
  have a: "a < 100" using assms(2) by (simp add: a_def less_mult_imp_div_less)
  have "fb * 100000000 + sb = (((fb * 100 + a) * 100 + b) * 100 + c) * 100 + d"
    by (subst sp(1)) simp
  hence "dec_digits (fb * 100000000 + sb) =
      dec_digits ((((fb * 100 + a) * 100 + b) * 100 + c) * 100 + d)" by (rule arg_cong)
  also have "\<dots> = dec_digits fb @ pair_digits a @ pair_digits b @ pair_digits c @ pair_digits d"
    using assms(1) a sp(2,3,4) by (intro dec_digits_pairs4) simp_all
  finally show ?thesis by (simp add: eight_digits_def a_def b_def c_def d_def)
qed

lemma stz_eight_digits_0: "strip_trailing_zeros (eight_digits 0) = []"
  by (simp add: eight_digits_def pair_digits_def stz_eq_Nil digit_char_simps)

lemma dec_digits_nonempty: "dec_digits n \<noteq> []"
  using dec_digits_last [of n] by auto

lemma text_blocks_zero: "1 \<le> fb \<Longrightarrow> significand_text (fb * 100000000) = significand_text fb"
  using dec_digits_blocks [of fb 0]
  by (simp add: significand_text_def stz_append stz_eight_digits_0)

lemma text_blocks:
  assumes "1 \<le> fb" "sb < 100000000" "strip_trailing_zeros (eight_digits sb) \<noteq> []"
  shows "significand_text (fb * 100000000 + sb) =
           (hd (dec_digits fb) # CHR ''.'' # tl (dec_digits fb)) @
             strip_trailing_zeros (eight_digits sb)"
proof -
  obtain d ds where d: "dec_digits fb = d # ds"
    using dec_digits_nonempty [of fb] by (cases "dec_digits fb") auto
  have "strip_trailing_zeros ((d # ds) @ eight_digits sb) =
      (d # ds) @ strip_trailing_zeros (eight_digits sb)"
    using assms(3) by (simp only: stz_append if_False)
  moreover have "ds @ strip_trailing_zeros (eight_digits sb) \<noteq> []"
    using assms(3) by simp
  ultimately show ?thesis
    unfolding significand_text_def dec_digits_blocks [OF assms(1,2)] d
    by (simp add: point_after_first_def)
qed

lemma double_text:
  assumes "1 \<le> s" "s \<le> 10 ^ 17 - 1" "10 ^ 16 \<le> s \<longrightarrow> s mod 10 \<noteq> 0"
  shows "\<exists>m'. to_chars_double_significand s e p mem =
           (e + int (length (dec_digits s)) - 1, p + length (significand_text s), m') \<and>
         range_bytes m' p (p + length (significand_text s)) = significand_text s"
proof (cases "s < 100000000")
  case True
  have "s \<le> 999999999" using True by simp
  from print_9_digits_exponent_cursor [OF assms(1) this, of e p mem] True
  show ?thesis by (simp add: to_chars_double_significand_small)
next
  case False
  define fb where "fb = s div 100000000"
  define sb where "sb = s mod 100000000"
  have lt: "s < 100000000000000000" using assms(2) by simp
  have s: "s = fb * 100000000 + sb" by (simp add: fb_def sb_def)
  have sb: "sb < 100000000" by (simp add: sb_def)
  have fb: "1 \<le> fb" "fb < 1000000000"
    using False lt by (simp_all add: fb_def less_eq_div_iff_mult_less_eq less_mult_imp_div_less)
  have sp: "split_blocks s e = (fb, sb, e + 8, sb = 0)"
    using split_blocks_large [OF _ lt, of e] False by (simp add: fb_def sb_def)
  have len: "length (dec_digits s) = length (dec_digits fb) + 8"
    unfolding s dec_digits_blocks [OF fb(1) sb] by (simp add: eight_digits_def pair_digits_def)
  show ?thesis
  proof (cases "sb = 0")
    case True
    have "fb < 100000000"
    proof (rule ccontr)
      assume "\<not> fb < 100000000"
      hence "10 ^ 16 \<le> s" unfolding s by simp
      moreover have "s mod 10 = 0" unfolding s True by simp
      ultimately show False using assms(3) by simp
    qed
    hence f: "fb \<le> 999999999" "fb < 100000000" by simp_all
    have t: "significand_text s = significand_text fb"
      unfolding s True using text_blocks_zero [OF fb(1)] by simp
    from print_9_digits_exponent_cursor [OF fb(1) f(1), of "e + 8" p mem] f(2)
    show ?thesis
      by (simp add: to_chars_double_significand_def sp True t len)
  next
    case nz: False
    show ?thesis
    proof (cases "100000000 \<le> fb")
      case True
      hence "10 ^ 16 \<le> s" unfolding s by simp
      hence "s mod 10 \<noteq> 0" using assms(3) by simp
      hence t: "significand_text s = point_after_first (dec_digits fb @ eight_digits sb)"
        unfolding s dec_digits_blocks [OF fb(1) sb, symmetric] by (rule text_no_trailing_zero)
      obtain m' where m: "print_17_digits fb sb (e + 8) p mem = (e + 8 + 8, p + 18, m')"
        "range_bytes m' p (p + 18) = point_after_first (dec_digits fb @ eight_digits sb)"
        "length (dec_digits fb) = 9"
        using print_17_digits_text [OF True fb(2) sb, of "e + 8" p mem] by blast
      have "length (range_bytes m' p (p + 18)) = 18" by (simp add: range_bytes_def)
      hence l18: "length (point_after_first (dec_digits fb @ eight_digits sb)) = 18"
        using m(2) by simp
      show ?thesis
        using True nz m(2)
        by (simp add: to_chars_double_significand_def sp m(1) l18 t len m(3))
    next
      case small: False
      hence f: "fb < 100000000" by simp
      let ?q = "p + 1 + length (dec_digits fb)"
      let ?H = "hd (dec_digits fb) # CHR ''.'' # tl (dec_digits fb)"
      let ?T = "strip_trailing_zeros (eight_digits sb)"
      obtain m1 where m1:
        "print_first_block fb (e + 8) p mem = (e + 8 + int (length (dec_digits fb)) - 1, ?q, m1)"
        "range_bytes m1 p ?q = ?H"
        using first_block_text [OF fb(1) f, of "e + 8" p mem] by blast
      have sb1: "1 \<le> sb" using nz by simp
      have T: "?T \<noteq> []" using second_block_text [OF sb1 sb] by blast
      obtain m2 where m2: "print_second_block sb ?q m1 = (?q + length ?T, m2)"
        "range_bytes m2 ?q (?q + length ?T) = ?T"
        using second_block_text [OF sb1 sb, of ?q m1] by blast
      have fr: "unchanged_outside m1 m2 ?q (?q + 8)"
        using frame_print_second_block [where sb = sb and p = ?q and mem = m1]
        unfolding m2(1) by simp
      have "range_bytes m2 p ?q = range_bytes m1 p ?q"
        using fr by (intro range_bytes_cong) (simp add: unchanged_outside_def)
      hence rb: "range_bytes m2 p (?q + length ?T) = ?H @ ?T"
        using range_bytes_append [of p ?q "?q + length ?T" m2] m1(2) m2(2) by simp
      have t: "significand_text s = ?H @ ?T"
        unfolding s using fb(1) sb T by (rule text_blocks)
      have "length ?H = 1 + length (dec_digits fb)"
        using dec_digits_nonempty [of fb] by (cases "dec_digits fb") simp_all
      hence P: "p + length (significand_text s) = ?q + length ?T"
        unfolding t by simp
      have R: "to_chars_double_significand s e p mem =
          (e + 8 + int (length (dec_digits fb)) - 1, ?q + length ?T, m2)"
        using small nz m1(1) m2(1) by (simp add: to_chars_double_significand_def sp)
      have E: "e + int (length (dec_digits s)) - 1 = e + 8 + int (length (dec_digits fb)) - 1"
        by (simp add: len)
      have "to_chars_double_significand s e p mem =
           (e + int (length (dec_digits s)) - 1, p + length (significand_text s), m2) \<and>
         range_bytes m2 p (p + length (significand_text s)) = significand_text s"
        unfolding P E R using rb t by simp
      thus ?thesis by blast
    qed
  qed
qed

lemma hd_dec_digits: "1 \<le> n \<Longrightarrow> hd (dec_digits n) \<noteq> CHR ''0''"
proof (induction n rule: dec_digits.induct)
  case (1 n)
  show ?case
  proof (cases "n < 10")
    case True
    then show ?thesis using "1.prems" by (subst dec_digits.simps) (simp add: digit_char_eq_0)
  next
    case False
    hence "1 \<le> n div 10" by (simp add: less_eq_div_iff_mult_less_eq)
    hence "hd (dec_digits (n div 10)) \<noteq> CHR ''0''" using False "1.IH" by simp
    then show ?thesis using False dec_digits_nonempty [of "n div 10"]
      by (subst dec_digits.simps) simp
  qed
qed

lemma stz_last: "strip_trailing_zeros cs \<noteq> [] \<Longrightarrow> last (strip_trailing_zeros cs) \<noteq> CHR ''0''"
proof -
  assume a: "strip_trailing_zeros cs \<noteq> []"
  let ?d = "dropWhile (\<lambda>c. c = CHR ''0'') (rev cs)"
  have "?d \<noteq> []" using a by (simp add: strip_trailing_zeros_def)
  hence "hd ?d \<noteq> CHR ''0''" using hd_dropWhile [of "\<lambda>c. c = CHR ''0''" "rev cs"] by simp
  thus ?thesis using \<open>?d \<noteq> []\<close> by (simp add: strip_trailing_zeros_def last_rev)
qed

lemma set_stz: "set (strip_trailing_zeros cs) \<subseteq> set cs"
  using set_dropWhileD [of _ "\<lambda>c. c = CHR ''0''" "rev cs"]
  by (auto simp: strip_trailing_zeros_def)

lemma stz_dec_digits:
  assumes "1 \<le> n"
  shows "strip_trailing_zeros (dec_digits n) \<noteq> []"
    and "list_all is_digit (strip_trailing_zeros (dec_digits n))"
proof -
  have "hd (dec_digits n) \<in> set (dec_digits n)" using dec_digits_nonempty by simp
  thus "strip_trailing_zeros (dec_digits n) \<noteq> []"
    using hd_dec_digits [OF assms] by (auto simp: stz_eq_Nil)
  show "list_all is_digit (strip_trailing_zeros (dec_digits n))"
    using list_all_is_digit_dec_digits [of n] set_stz [of "dec_digits n"]
    by (auto simp: list_all_iff)
qed

lemma significand_text_shape:
  assumes "1 \<le> n"
  shows "significand_text n \<noteq> [] \<and>
         last (significand_text n) \<noteq> CHR ''0'' \<and>
         last (significand_text n) \<noteq> CHR ''.'' \<and>
         (CHR ''.'' \<in> set (significand_text n)) = (1 < count_digits (significand_text n))"
proof -
  define ds where "ds = strip_trailing_zeros (dec_digits n)"
  have ne: "ds \<noteq> []" and dg: "list_all is_digit ds" and l0: "last ds \<noteq> CHR ''0''"
    using stz_dec_digits [OF assms] stz_last [of "dec_digits n"] by (simp_all add: ds_def)
  have nd: "\<not> is_digit CHR ''.''" by (simp add: is_digit_def)
  have "last ds \<in> set ds" using ne by simp
  hence ld: "last ds \<noteq> CHR ''.''" using dg nd by (auto simp: list_all_iff)
  have np: "CHR ''.'' \<notin> set ds" using dg nd by (auto simp: list_all_iff)
  have c: "count_digits (point_after_first ds) = length ds"
    using dg by (rule count_digits_point_after_first)
  obtain d r where ds: "ds = d # r" using ne by (cases ds) auto
  show ?thesis
    unfolding significand_text_def ds_def [symmetric]
    using l0 ld np c unfolding ds
    by (cases "r = []") (simp_all add: point_after_first_def)
qed

lemma digit_char_Suc_0: "digit_char (Suc 0) = CHR ''1''"
  using digit_char_simps(2) by simp

lemma significand_text_1234500: "significand_text 1234500 = ''1.2345''"
proof -
  have "dec_digits (((1 * 100 + 23) * 100 + 45) * 100 + 0) =
      dec_digits 1 @ pair_digits 23 @ pair_digits 45 @ pair_digits 0"
    by (rule dec_digits_pairs3) simp_all
  hence "dec_digits 1234500 = ''1234500''"
    by (simp add: dec_digits_small pair_digits_def digit_char_simps digit_char_Suc_0)
  thus ?thesis
    by (simp add: significand_text_def stz_Cons' stz_Nil point_after_first_def)
qed

lemma significand_text_12345678901234567:
  "significand_text 12345678901234567 = ''1.2345678901234567''"
proof -
  have "dec_digits ((((1 * 100 + 23) * 100 + 45) * 100 + 67) * 100 + 89) =
      dec_digits 1 @ pair_digits 23 @ pair_digits 45 @ pair_digits 67 @ pair_digits 89"
    by (rule dec_digits_pairs4) simp_all
  hence a: "dec_digits 123456789 = ''123456789''"
    by (simp add: dec_digits_small pair_digits_def digit_char_simps digit_char_Suc_0)
  have "dec_digits (123456789 * 100000000 + 1234567) = dec_digits 123456789 @ eight_digits 1234567"
    by (rule dec_digits_blocks) simp_all
  hence "dec_digits 12345678901234567 = ''12345678901234567''"
    by (simp add: a eight_digits_def pair_digits_def digit_char_simps digit_char_Suc_0)
  thus ?thesis
    by (simp add: significand_text_def stz_Cons' stz_Nil point_after_first_def)
qed

lemma dec_digits_100000000: "dec_digits 100000000 = ''100000000''"
proof -
  have "dec_digits ((((1 * 100 + 0) * 100 + 0) * 100 + 0) * 100 + 0) =
      dec_digits 1 @ pair_digits 0 @ pair_digits 0 @ pair_digits 0 @ pair_digits 0"
    by (rule dec_digits_pairs4) simp_all
  thus ?thesis
    by (simp add: dec_digits_small pair_digits_def digit_char_simps digit_char_Suc_0)
qed

lemma dec_digits_12345678901234567:
  "dec_digits 12345678901234567 = ''12345678901234567''"
proof -
  have "dec_digits ((((1 * 100 + 23) * 100 + 45) * 100 + 67) * 100 + 89) =
      dec_digits 1 @ pair_digits 23 @ pair_digits 45 @ pair_digits 67 @ pair_digits 89"
    by (rule dec_digits_pairs4) simp_all
  hence a: "dec_digits 123456789 = ''123456789''"
    by (simp add: dec_digits_small pair_digits_def digit_char_simps digit_char_Suc_0)
  have "dec_digits (123456789 * 100000000 + 1234567) = dec_digits 123456789 @ eight_digits 1234567"
    by (rule dec_digits_blocks) simp_all
  thus ?thesis
    by (simp add: a eight_digits_def pair_digits_def digit_char_simps digit_char_Suc_0)
qed

lemma significand_text_12: "significand_text 12 = ''1.2''"
  by (simp add: text_simps digit_char_simps digit_char_Suc_0)

lemma to_chars_double_significand_fst:
  assumes "1 \<le> s" "s \<le> 10 ^ 17 - 1" "10 ^ 16 \<le> s \<longrightarrow> s mod 10 \<noteq> 0"
  shows "fst (to_chars_double_significand s e p mem) = e + int (length (dec_digits s)) - 1"
  using double_text [OF assms, of e p mem] by auto

lemma first_block_delegated_text:
  assumes "100000000 \<le> s" "s < 100000000000000000" "s mod 100000000 = 0"
  shows "case to_chars_double_significand s e p mem of (e', p', m') \<Rightarrow>
           range_bytes m' p p' =
             (if s < 10000000000000000 then significand_text (s div 100000000)
              else point_after_first (dec_digits (s div 100000000)))"
proof -
  define fb where "fb = s div 100000000"
  have fb: "1 \<le> fb" "fb \<le> 999999999"
    using assms(1,2) by (simp_all add: fb_def less_eq_div_iff_mult_less_eq div_le_mono)
  have c: "(fb < 100000000) = (s < 10000000000000000)"
    unfolding fb_def by (simp add: div_less_iff_less_mult)
  let ?t = "if fb < 100000000 then significand_text fb else point_after_first (dec_digits fb)"
  obtain m1 where m1:
    "print_9_digits fb (e + 8) p mem = (e + 8 + int (length (dec_digits fb)) - 1, p + length ?t, m1)"
    "range_bytes m1 p (p + length ?t) = ?t"
    using print_9_digits_exponent_cursor [OF fb, of "e + 8" p mem] by blast
  have d: "to_chars_double_significand s e p mem = print_9_digits fb (e + 8) p mem"
    using split_blocks_large [OF assms(1,2), of e] assms(3)
    by (simp add: to_chars_double_significand_def fb_def)
  show ?thesis
    unfolding d m1(1) fb_def [symmetric] using m1(2) c by simp
qed

section \<open>The claims\<close>

text \<open>
  C4 (amended): for every \<open>s32\<close> in \<open>[100000000, 999999999]\<close>, the head obtained as the
  high 32 bits of \<open>(s32 * 1441151882) >> 25\<close> is the single leading decimal digit
  \<open>s32 div 10^8\<close> and lies in \<open>[1, 9]\<close>.
\<close>

theorem head_9_digits_leading_digit:
  assumes "100000000 \<le> s32" "s32 \<le> 999999999"
  shows "head_9_digits s32 = s32 div 100000000 \<and> 1 \<le> head_9_digits s32 \<and> head_9_digits s32 \<le> 9"
proof -
  have lt: "s32 < 1000000000" using assms(2) by simp
  have h: "head_9_digits s32 = s32 div 100000000"
    unfolding head_9_digits_def Let_def
    by (rule ladder8(1) [OF jinv_init9 [OF assms(1) lt] lt])
  have "1 \<le> s32 div 100000000" using assms(1) by (simp add: less_eq_div_iff_mult_less_eq)
  moreover have "s32 div 100000000 < 10" using lt by (intro less_mult_imp_div_less) simp
  ultimately show ?thesis using h by simp
qed

theorem head_9_digits_leading_digit_witness:
  "100000000 \<le> (123456789 :: nat) \<and> (123456789 :: nat) \<le> 999999999 \<and>
   head_9_digits 123456789 = 1"
  using head_9_digits_leading_digit [of 123456789] by simp

text \<open>
  Counterexample to C4 as stated: at \<open>s32 = 100000000\<close> the head is \<open>1\<close>, which is not
  in \<open>[10, 99]\<close>.
\<close>

theorem head_9_digits_not_two_digits:
  "\<not> (10 \<le> head_9_digits 100000000 \<and> head_9_digits 100000000 \<le> 99)"
  by (simp add: head_9_digits_def u32_def u64_def shr_def)

text \<open>
  C3: for every \<open>second_block\<close> below \<open>10^8\<close>, the ladder seeded with
  \<open>((second_block * 281474978) >> 16) + 1\<close> yields the four base-100 digits of
  \<open>second_block\<close>, that is the four pairs of its zero-padded 8-digit representation;
  and without the \<open>+ 1\<close> some \<open>second_block\<close> below \<open>10^8\<close> gives a wrong pair.
\<close>

theorem second_block_pairs_correct:
  "(\<forall>second_block < 100000000.
      second_block_pairs second_block =
        [second_block div 1000000, second_block div 10000 mod 100,
         second_block div 100 mod 100, second_block mod 100]) \<and>
   (\<exists>second_block < 100000000.
      second_block_pairs_without_increment second_block \<noteq>
        [second_block div 1000000, second_block div 10000 mod 100,
         second_block div 100 mod 100, second_block mod 100])"
proof (intro conjI allI impI)
  fix n :: nat assume "n < 100000000"
  thus "second_block_pairs n = [n div 1000000, n div 10000 mod 100, n div 100 mod 100, n mod 100]"
    by (rule second_block_pairs_eq)
next
  have "second_block_pairs_without_increment 1 \<noteq> [1 div 1000000, 1 div 10000 mod 100, 1 div 100 mod 100, 1 mod 100]"
    by (simp add: second_block_pairs_without_increment_def u32_def u64_def shr_def)
  thus "\<exists>n<100000000. second_block_pairs_without_increment n \<noteq>
        [n div 1000000, n div 10000 mod 100, n div 100 mod 100, n mod 100]"
    by (intro exI [of _ 1]) simp
qed

theorem second_block_pairs_correct_witness:
  "second_block_pairs 12345678 = [12, 34, 56, 78] \<and>
   second_block_pairs_without_increment 1 = [0, 0, 0, 0]"
proof -
  have "second_block_pairs 12345678 = [12, 34, 56, 78]"
    using second_block_pairs_correct by simp
  moreover have "second_block_pairs_without_increment 1 = [0, 0, 0, 0]"
    by (simp add: second_block_pairs_without_increment_def u32_def u64_def shr_def)
  ultimately show ?thesis by simp
qed

text \<open>
  C10: for every \<open>s32\<close> in \<open>[1, 999999999]\<close> and every input exponent \<open>e\<close>,
  \<open>print_9_digits\<close> sets the exponent to \<open>e + (digits10(s32) - 1)\<close>, where
  \<open>digits10(s32)\<close> is the number of decimal digits of \<open>s32\<close>, trailing zeros included;
  when trailing zeros are cut (as for \<open>s32 = 10\<close>) this exceeds
  \<open>e + written_digits - 1\<close>.
\<close>

theorem print_9_digits_exponent:
  assumes "1 \<le> s32" "s32 \<le> 999999999"
  shows "fst (print_9_digits s32 e buffer mem) = e + (int (length (dec_digits s32)) - 1) \<and>
    (case print_9_digits 10 e buffer mem of (e', buffer', mem') \<Rightarrow>
       e' > e + (int (count_digits (range_bytes mem' buffer buffer')) - 1))"
proof -
  obtain mem' where m: "print_9_digits 10 e buffer mem = (e + 1, buffer + 1, mem')"
    "range_bytes mem' buffer (buffer + 1) = [digit_char 1]"
    using print_9_digits_at_10 [of e buffer mem] by blast
  have "case print_9_digits 10 e buffer mem of (e', buffer', mem') \<Rightarrow>
       e' > e + (int (count_digits (range_bytes mem' buffer buffer')) - 1)"
    unfolding m(1) using m(2) by (simp add: count_digits_def is_digit_digit_char)
  moreover have "fst (print_9_digits s32 e buffer mem) = e + (int (length (dec_digits s32)) - 1)"
    using print_9_digits_exponent_cursor [OF assms, of e buffer mem] by auto
  ultimately show ?thesis by simp
qed

theorem print_9_digits_exponent_witness:
  "(1::nat) \<le> 1200 \<and> (1200::nat) \<le> 999999999 \<and>
   fst (print_9_digits 1200 (-3) 0 (\<lambda>_. CHR ''x'')) = 0 \<and>
   length (dec_digits 1200) = 4"
proof -
  have "length (dec_digits 1200) = 4"
    using dec_digits_pair [of 12 0] by (simp add: dec_digits_head pair_digits_def)
  thus ?thesis
    using print_9_digits_exponent [of 1200 "-3" 0 "\<lambda>_. CHR ''x''"] by simp
qed

text \<open>
  C2 (amended): for every \<open>s32\<close> in \<open>[1, 999999999]\<close> whose last decimal digit is not
  zero, or which has 9 digits, the exponent after \<open>print_9_digits\<close> is the exponent
  before plus the number of digit characters in \<open>[initial_cursor, returned_cursor)\<close>
  minus one.
\<close>

theorem print_9_digits_exponent_written_digits:
  assumes "1 \<le> s32" "s32 \<le> 999999999" "s32 mod 10 \<noteq> 0 \<or> 100000000 \<le> s32"
  shows "case print_9_digits s32 e buffer mem of (e', buffer', mem') \<Rightarrow>
           e' = e + (int (count_digits (range_bytes mem' buffer buffer')) - 1)"
proof -
  let ?t = "if s32 < 100000000 then significand_text s32 else point_after_first (dec_digits s32)"
  obtain mem' where m:
    "print_9_digits s32 e buffer mem = (e + int (length (dec_digits s32)) - 1, buffer + length ?t, mem')"
    "range_bytes mem' buffer (buffer + length ?t) = ?t"
    using print_9_digits_exponent_cursor [OF assms(1,2), of e buffer mem] by blast
  have "?t = point_after_first (dec_digits s32)"
    using assms(3) by (auto simp: text_no_trailing_zero)
  hence "count_digits ?t = length (dec_digits s32)"
    by (simp add: count_digits_point_after_first list_all_is_digit_dec_digits)
  thus ?thesis unfolding m(1) by (simp add: m(2))
qed

theorem print_9_digits_exponent_written_digits_witness:
  "(1::nat) \<le> 1234567 \<and> (1234567::nat) \<le> 999999999 \<and>
   (1234567::nat) mod 10 = 7 \<and>
   (case print_9_digits 1234567 0 0 (\<lambda>_. CHR ''x'') of (e', buffer', mem') \<Rightarrow>
      e' = 0 + (int (count_digits (range_bytes mem' 0 buffer')) - 1))"
  using print_9_digits_exponent_written_digits [of 1234567 0 0 "\<lambda>_. CHR ''x''"] by simp

text \<open>
  Counterexample to C2 as stated: for \<open>s32 = 10\<close> and exponent \<open>0\<close> one digit is
  written and the exponent becomes \<open>1\<close>, not \<open>0 + (1 - 1)\<close>.
\<close>

theorem print_9_digits_exponent_exceeds_written_digits:
  "case print_9_digits 10 0 0 (\<lambda>_. CHR ''x'') of (e', buffer', mem') \<Rightarrow>
     e' = 1 \<and> count_digits (range_bytes mem' 0 buffer') = 1 \<and>
     e' \<noteq> 0 + (int (count_digits (range_bytes mem' 0 buffer')) - 1)"
proof -
  obtain mem' where m: "print_9_digits 10 0 0 (\<lambda>_. CHR ''x'') = (0 + 1, 0 + 1, mem')"
    "range_bytes mem' 0 (0 + 1) = [digit_char 1]"
    using print_9_digits_at_10 [of 0 0 "\<lambda>_. CHR ''x''"] by blast
  show ?thesis unfolding m(1) using m(2) by (simp add: count_digits_def is_digit_digit_char)
qed

text \<open>
  C9: what the NaN writer does. For a positive NaN it writes \<open>nan\<close> or \<open>nan(snan)\<close> and
  returns the pointer one past the last byte. For a negative NaN it writes
  \<open>-nan(ind)\<close> (9 bytes) or \<open>-nan(snan)\<close> (10 bytes), but the returned pointer is 10
  and 11 bytes past the initial pointer: one byte more than the length of the
  written string.
\<close>

theorem to_chars_long_double_nan_pointer:
  "(\<exists>mem'. to_chars_long_double first True False False mem = Some (first + 3, mem') \<and>
       range_bytes mem' first (first + 3) = ''nan'') \<and>
   (\<exists>mem'. to_chars_long_double first True False True mem = Some (first + 9, mem') \<and>
       range_bytes mem' first (first + 9) = ''nan(snan)'') \<and>
   (\<exists>mem'. to_chars_long_double first True True False mem = Some (first + 10, mem') \<and>
       range_bytes mem' first (first + 9) = ''-nan(ind)'') \<and>
   (\<exists>mem'. to_chars_long_double first True True True mem = Some (first + 11, mem') \<and>
       range_bytes mem' first (first + 10) = ''-nan(snan)'')"
  by (simp add: to_chars_long_double_def unsigned_def range_bytes_Cons range_bytes_Nil)

text \<open>
  C5 (amended): for every significand in \<open>[1, 10^17 - 1]\<close> and every exponent: below
  \<open>10^8\<close> the 64-bit entry point hands significand and exponent unchanged to
  \<open>print_9_digits\<close>; from \<open>10^8\<close> on it computes \<open>first_block = significand / 10^8\<close>
  and \<open>second_block = significand mod 10^8\<close>, adds 8 to the exponent, and when
  \<open>second_block\<close> is 0 it prints \<open>first_block\<close> with \<open>print_9_digits\<close>. The bytes
  written are then the digits of \<open>first_block\<close> with trailing zeros trimmed when
  \<open>significand < 10^16\<close> (\<open>first_block\<close> has at most 8 digits), and all nine digits of
  \<open>first_block\<close>, trailing zeros included, when \<open>significand \<ge> 10^16\<close>.
\<close>

theorem to_chars_double_significand_delegation:
  assumes "1 \<le> significand" "significand \<le> 10 ^ 17 - 1"
  shows "(significand < 10 ^ 8 \<longrightarrow>
            to_chars_double_significand significand e buffer mem =
              print_9_digits significand e buffer mem) \<and>
         (10 ^ 8 \<le> significand \<longrightarrow>
            split_blocks significand e =
              (significand div 10 ^ 8, significand mod 10 ^ 8, e + 8, significand mod 10 ^ 8 = 0)) \<and>
         (10 ^ 8 \<le> significand \<and> significand mod 10 ^ 8 = 0 \<longrightarrow>
            to_chars_double_significand significand e buffer mem =
              print_9_digits (significand div 10 ^ 8) (e + 8) buffer mem) \<and>
         (10 ^ 8 \<le> significand \<and> significand mod 10 ^ 8 = 0 \<and> significand < 10 ^ 16 \<longrightarrow>
            (case to_chars_double_significand significand e buffer mem of
               (e', buffer', mem') \<Rightarrow>
                 range_bytes mem' buffer buffer' = significand_text (significand div 10 ^ 8))) \<and>
         (10 ^ 16 \<le> significand \<and> significand mod 10 ^ 8 = 0 \<longrightarrow>
            (case to_chars_double_significand significand e buffer mem of
               (e', buffer', mem') \<Rightarrow>
                 range_bytes mem' buffer buffer' =
                   point_after_first (dec_digits (significand div 10 ^ 8))))"
proof -
  have lt: "significand < 100000000000000000" using assms(2) by simp
  have A: "(significand < 10 ^ 8 \<longrightarrow>
            to_chars_double_significand significand e buffer mem =
              print_9_digits significand e buffer mem) \<and>
         (10 ^ 8 \<le> significand \<longrightarrow>
            split_blocks significand e =
              (significand div 10 ^ 8, significand mod 10 ^ 8, e + 8, significand mod 10 ^ 8 = 0)) \<and>
         (10 ^ 8 \<le> significand \<and> significand mod 10 ^ 8 = 0 \<longrightarrow>
            to_chars_double_significand significand e buffer mem =
              print_9_digits (significand div 10 ^ 8) (e + 8) buffer mem)"
    using split_blocks_small [of significand e] split_blocks_large [OF _ lt, of e]
    by (auto simp: to_chars_double_significand_def)
  have B: "10 ^ 8 \<le> significand \<and> significand mod 10 ^ 8 = 0 \<and> significand < 10 ^ 16 \<longrightarrow>
            (case to_chars_double_significand significand e buffer mem of
               (e', buffer', mem') \<Rightarrow>
                 range_bytes mem' buffer buffer' = significand_text (significand div 10 ^ 8))"
  proof (intro impI, elim conjE)
    assume h: "10 ^ 8 \<le> significand" "significand mod 10 ^ 8 = 0" "significand < 10 ^ 16"
    have "100000000 \<le> significand" "significand mod 100000000 = 0"
      "significand < 10000000000000000" using h by simp_all
    from first_block_delegated_text [OF this(1) lt this(2), where e = e and p = buffer and mem = mem] this(3)
    show "case to_chars_double_significand significand e buffer mem of
               (e', buffer', mem') \<Rightarrow>
                 range_bytes mem' buffer buffer' = significand_text (significand div 10 ^ 8)"
      by simp
  qed
  have C: "10 ^ 16 \<le> significand \<and> significand mod 10 ^ 8 = 0 \<longrightarrow>
            (case to_chars_double_significand significand e buffer mem of
               (e', buffer', mem') \<Rightarrow>
                 range_bytes mem' buffer buffer' =
                   point_after_first (dec_digits (significand div 10 ^ 8)))"
  proof (intro impI, elim conjE)
    assume h: "10 ^ 16 \<le> significand" "significand mod 10 ^ 8 = 0"
    have "100000000 \<le> significand" "significand mod 100000000 = 0"
      "\<not> significand < 10000000000000000" using h by simp_all
    from first_block_delegated_text [OF this(1) lt this(2), where e = e and p = buffer and mem = mem] this(3)
    show "case to_chars_double_significand significand e buffer mem of
               (e', buffer', mem') \<Rightarrow>
                 range_bytes mem' buffer buffer' =
                   point_after_first (dec_digits (significand div 10 ^ 8))"
      by simp
  qed
  show ?thesis
    by (intro conjI A [THEN conjunct1] A [THEN conjunct2, THEN conjunct1]
        A [THEN conjunct2, THEN conjunct2] B C)
qed

theorem to_chars_double_significand_delegation_witness:
  "to_chars_double_significand 15 0 0 (\<lambda>_. CHR ''x'') = print_9_digits 15 0 0 (\<lambda>_. CHR ''x'') \<and>
   split_blocks 123456789012 0 = (1234, 56789012, 8, False) \<and>
   to_chars_double_significand 1200000000 0 0 (\<lambda>_. CHR ''x'') =
     print_9_digits 12 8 0 (\<lambda>_. CHR ''x'') \<and>
   (case to_chars_double_significand 1200000000 0 0 (\<lambda>_. CHR ''x'') of
      (e', buffer', mem') \<Rightarrow> range_bytes mem' 0 buffer' = ''1.2'') \<and>
   (case to_chars_double_significand 10000000000000000 0 0 (\<lambda>_. CHR ''x'') of
      (e', buffer', mem') \<Rightarrow> range_bytes mem' 0 buffer' = ''1.00000000'')"
proof -
  let ?m = "\<lambda>_::nat. CHR ''x''"
  have h: "(1::nat) \<le> 15 \<and> (15::nat) \<le> 10 ^ 17 - 1"
    "(1::nat) \<le> 123456789012 \<and> (123456789012::nat) \<le> 10 ^ 17 - 1"
    "(1::nat) \<le> 1200000000 \<and> (1200000000::nat) \<le> 10 ^ 17 - 1"
    "(1::nat) \<le> 10000000000000000 \<and> (10000000000000000::nat) \<le> 10 ^ 17 - 1"
    by simp_all
  note t1 = to_chars_double_significand_delegation [OF h(1) [THEN conjunct1] h(1) [THEN conjunct2], of 0 0 ?m]
  note t2 = to_chars_double_significand_delegation [OF h(2) [THEN conjunct1] h(2) [THEN conjunct2], of 0 0 ?m]
  note t3 = to_chars_double_significand_delegation [OF h(3) [THEN conjunct1] h(3) [THEN conjunct2], of 0 0 ?m]
  note t4 = to_chars_double_significand_delegation [OF h(4) [THEN conjunct1] h(4) [THEN conjunct2], of 0 0 ?m]
  have a: "to_chars_double_significand 15 0 0 ?m = print_9_digits 15 0 0 ?m"
    using t1 by simp
  have b: "split_blocks 123456789012 0 = (1234, 56789012, 8, False)"
    using t2 by simp
  have c: "to_chars_double_significand 1200000000 0 0 ?m = print_9_digits 12 8 0 ?m"
    using t3 by simp
  have g3: "(10::nat) ^ 8 \<le> 1200000000 \<and> (1200000000::nat) mod 10 ^ 8 = 0 \<and>
      (1200000000::nat) < 10 ^ 16" by simp
  note u3 = t3 [THEN conjunct2, THEN conjunct2, THEN conjunct2, THEN conjunct1, THEN mp, OF g3]
  from u3 have "case to_chars_double_significand 1200000000 0 0 ?m of
      (e', buffer', mem') \<Rightarrow>
        range_bytes mem' 0 buffer' = significand_text (1200000000 div 10 ^ 8)" .
  moreover have "(1200000000::nat) div 10 ^ 8 = 12" by simp
  ultimately have d: "case to_chars_double_significand 1200000000 0 0 ?m of
      (e', buffer', mem') \<Rightarrow> range_bytes mem' 0 buffer' = ''1.2''"
    by (simp only: significand_text_12)
  have g4: "(10::nat) ^ 16 \<le> 10000000000000000 \<and> (10000000000000000::nat) mod 10 ^ 8 = 0"
    by simp
  note u4 = t4 [THEN conjunct2, THEN conjunct2, THEN conjunct2, THEN conjunct2, THEN mp, OF g4]
  from u4 have "case to_chars_double_significand 10000000000000000 0 0 ?m of
      (e', buffer', mem') \<Rightarrow>
        range_bytes mem' 0 buffer' =
          point_after_first (dec_digits (10000000000000000 div 10 ^ 8))" .
  moreover have "(10000000000000000::nat) div 10 ^ 8 = 100000000" by simp
  moreover have "point_after_first (dec_digits 100000000) = ''1.00000000''"
    by (simp add: dec_digits_100000000 point_after_first_def)
  ultimately have e: "case to_chars_double_significand 10000000000000000 0 0 ?m of
      (e', buffer', mem') \<Rightarrow> range_bytes mem' 0 buffer' = ''1.00000000''"
    by (simp only:)
  show ?thesis by (intro conjI a b c d e)
qed

text \<open>
  Counterexample to C5 as stated: at significand \<open>10^16\<close> the second block is 0 and
  \<open>first_block = 100000000\<close> goes through the 9-digit band of \<open>print_9_digits\<close>, which
  trims nothing: the bytes written are \<open>1.00000000\<close>, not the trimmed text \<open>1\<close>.
\<close>

theorem first_block_of_9_digits_keeps_trailing_zeros:
  "(case to_chars_double_significand 10000000000000000 0 0 (\<lambda>_. CHR ''x'') of
      (e', buffer', mem') \<Rightarrow>
        range_bytes mem' 0 buffer' = ''1.00000000'' \<and>
        range_bytes mem' 0 buffer' \<noteq> significand_text 100000000) \<and>
   split_blocks 10000000000000000 0 = (100000000, 0, 8, True) \<and>
   significand_text 100000000 = ''1''"
proof -
  let ?m = "\<lambda>_::nat. CHR ''x''"
  have t: "significand_text 100000000 = ''1''"
    by (simp add: significand_text_def dec_digits_100000000 stz_Cons' stz_Nil
        point_after_first_def)
  have s: "split_blocks 10000000000000000 0 = (100000000, 0, 8, True)"
    using split_blocks_large [of 10000000000000000 0] by simp
  have p: "point_after_first (dec_digits 100000000) = ''1.00000000''"
    by (simp add: dec_digits_100000000 point_after_first_def)
  have "case to_chars_double_significand 10000000000000000 0 0 ?m of (e', p', m') \<Rightarrow>
           range_bytes m' 0 p' =
             (if (10000000000000000::nat) < 10000000000000000
              then significand_text (10000000000000000 div 100000000)
              else point_after_first (dec_digits (10000000000000000 div 100000000)))"
    by (rule first_block_delegated_text) simp_all
  hence "case to_chars_double_significand 10000000000000000 0 0 ?m of (e', p', m') \<Rightarrow>
           range_bytes m' 0 p' = ''1.00000000''"
    by (simp add: p)
  hence "case to_chars_double_significand 10000000000000000 0 0 ?m of (e', p', m') \<Rightarrow>
           range_bytes m' 0 p' = ''1.00000000'' \<and>
           range_bytes m' 0 p' \<noteq> significand_text 100000000"
    by (auto simp: t)
  thus ?thesis using s t by simp
qed

text \<open>
  C6: when the exponent after digit emission is 0, both writers emit no suffix at all
  under \<open>general\<close>, and exactly \<open>e+00\<close> under \<open>scientific\<close> (the digits written before
  stay as they are). The float and the double writer take their own significand and
  value exponent.
\<close>

theorem exponent_zero_suffix:
  assumes "fst (print_9_digits s32 e buffer mem) = 0"
    and "fst (to_chars_double_significand significand e2 buffer mem) = 0"
  shows "(case print_9_digits s32 e buffer mem of (e', buffer', mem') \<Rightarrow>
            to_chars_float s32 e buffer general mem = (buffer', mem') \<and>
            (case to_chars_float s32 e buffer scientific mem of (buffer'', mem'') \<Rightarrow>
               buffer'' = buffer' + 4 \<and>
               range_bytes mem'' buffer' buffer'' = ''e+00'' \<and>
               range_bytes mem'' buffer buffer' = range_bytes mem' buffer buffer')) \<and>
         (case to_chars_double_significand significand e2 buffer mem of (e', buffer', mem') \<Rightarrow>
            to_chars_double significand e2 buffer general mem = (buffer', mem') \<and>
            (case to_chars_double significand e2 buffer scientific mem of (buffer'', mem'') \<Rightarrow>
               buffer'' = buffer' + 4 \<and>
               range_bytes mem'' buffer' buffer'' = ''e+00'' \<and>
               range_bytes mem'' buffer buffer' = range_bytes mem' buffer buffer'))"
proof -
  have r: "\<And>m p q. range_bytes (m(q := CHR ''e'', Suc q := CHR ''+'', Suc (Suc q) := CHR ''0'',
        Suc (Suc (Suc q)) := CHR ''0'')) p q = range_bytes m p q"
    by (rule range_bytes_cong) simp
  obtain e1 b1 m1 where p1: "print_9_digits s32 e buffer mem = (e1, b1, m1)"
    by (cases "print_9_digits s32 e buffer mem") auto
  obtain e3 b2 m2 where p2:
    "to_chars_double_significand significand e2 buffer mem = (e3, b2, m2)"
    by (cases "to_chars_double_significand significand e2 buffer mem") auto
  have z: "e1 = 0" "e3 = 0" using assms p1 p2 by simp_all
  have f: "to_chars_float s32 e buffer general mem = (b1, m1)"
    "to_chars_float s32 e buffer scientific mem = (b1 + 4, memcpy_str m1 b1 ''e+00'')"
    by (simp_all add: to_chars_float_suffix p1 z)
  have d: "to_chars_double significand e2 buffer general mem = (b2, m2)"
    "to_chars_double significand e2 buffer scientific mem = (b2 + 4, memcpy_str m2 b2 ''e+00'')"
    by (simp_all add: to_chars_double_suffix p2 z)
  show ?thesis
    unfolding p1 p2 f d
    by (simp add: range_bytes_Cons range_bytes_Nil r)
qed

theorem exponent_zero_suffix_witness:
  "fst (print_9_digits 15 (-1) 0 (\<lambda>_. CHR ''x'')) = 0 \<and>
   fst (to_chars_double_significand 12345678901234567 (-16) 0 (\<lambda>_. CHR ''x'')) = 0 \<and>
   (case print_9_digits 15 (-1) 0 (\<lambda>_. CHR ''x'') of (e', buffer', mem') \<Rightarrow>
            to_chars_float 15 (-1) 0 general (\<lambda>_. CHR ''x'') = (buffer', mem') \<and>
            (case to_chars_float 15 (-1) 0 scientific (\<lambda>_. CHR ''x'') of (buffer'', mem'') \<Rightarrow>
               buffer'' = buffer' + 4 \<and>
               range_bytes mem'' buffer' buffer'' = ''e+00'' \<and>
               range_bytes mem'' 0 buffer' = range_bytes mem' 0 buffer')) \<and>
   (case to_chars_double_significand 12345678901234567 (-16) 0 (\<lambda>_. CHR ''x'') of
      (e', buffer', mem') \<Rightarrow>
            to_chars_double 12345678901234567 (-16) 0 general (\<lambda>_. CHR ''x'') = (buffer', mem') \<and>
            (case to_chars_double 12345678901234567 (-16) 0 scientific (\<lambda>_. CHR ''x'') of
               (buffer'', mem'') \<Rightarrow>
               buffer'' = buffer' + 4 \<and>
               range_bytes mem'' buffer' buffer'' = ''e+00'' \<and>
               range_bytes mem'' 0 buffer' = range_bytes mem' 0 buffer'))"
proof -
  let ?m = "\<lambda>_::nat. CHR ''x''"
  have f: "fst (print_9_digits 15 (-1) 0 ?m) = 0"
    by (simp add: print_9_digits_fst length_dec_digits_15)
  have d: "fst (to_chars_double_significand 12345678901234567 (-16) 0 ?m) = 0"
    by (simp add: to_chars_double_significand_fst dec_digits_12345678901234567)
  note t = exponent_zero_suffix [OF f d]
  note A = t [THEN conjunct1]
  note B = t [THEN conjunct2]
  show ?thesis by (intro conjI f d A B)
qed

text \<open>
  C7: whenever a suffix is emitted it matches \<open>e[+-][0-9]{2,3}\<close>. The float writer
  (exponent magnitude at most 99) emits \<open>e\<close>, the sign and exactly two digits; the
  double writer (magnitude at most 999) emits two digits below 100 and else three
  digits, \<open>floor(exp / 10)\<close> as a pair and \<open>exp mod 10\<close>; and for every \<open>exp\<close> in
  \<open>[100, 999]\<close> the multiply-high computation gives \<open>d1 = exp div 10\<close> and
  \<open>d2 = exp mod 10\<close>.
\<close>

theorem exponent_suffix_form:
  assumes "\<bar>fst (print_9_digits s32 e buffer mem)\<bar> \<le> 99"
    and "fst (print_9_digits s32 e buffer mem) \<noteq> 0 \<or> fmt = scientific"
    and "\<bar>fst (to_chars_double_significand significand e2 buffer mem)\<bar> \<le> 999"
    and "fst (to_chars_double_significand significand e2 buffer mem) \<noteq> 0 \<or> fmt = scientific"
  shows "(case print_9_digits s32 e buffer mem of (e', buffer', mem') \<Rightarrow>
            (case to_chars_float s32 e buffer fmt mem of (buffer'', mem'') \<Rightarrow>
               range_bytes mem'' buffer' buffer'' =
                 CHR ''e'' # exponent_sign e' # pair_digits (nat \<bar>e'\<bar>) \<and>
               exponent_suffix_ok (range_bytes mem'' buffer' buffer''))) \<and>
         (case to_chars_double_significand significand e2 buffer mem of (e', buffer', mem') \<Rightarrow>
            (case to_chars_double significand e2 buffer fmt mem of (buffer'', mem'') \<Rightarrow>
               range_bytes mem'' buffer' buffer'' =
                 CHR ''e'' # exponent_sign e' #
                   (if \<bar>e'\<bar> < 100 then pair_digits (nat \<bar>e'\<bar>)
                    else pair_digits (nat \<bar>e'\<bar> div 10) @ [digit_char (nat \<bar>e'\<bar> mod 10)]) \<and>
               exponent_suffix_ok (range_bytes mem'' buffer' buffer''))) \<and>
         (\<forall>exp \<in> {100..999}. exponent_digits exp = (exp div 10, exp mod 10))"
  using float_suffix_case [OF assms(1,2)] double_suffix_case [OF assms(3,4)]
    exponent_digits_eq by simp

theorem exponent_suffix_form_witness:
  "fst (print_9_digits 15 1 0 (\<lambda>_. CHR ''x'')) = 2 \<and>
   fst (to_chars_double_significand 15 122 0 (\<lambda>_. CHR ''x'')) = 123 \<and>
   (case print_9_digits 15 1 0 (\<lambda>_. CHR ''x'') of (e', buffer', mem') \<Rightarrow>
      (case to_chars_float 15 1 0 general (\<lambda>_. CHR ''x'') of (buffer'', mem'') \<Rightarrow>
         range_bytes mem'' buffer' buffer'' =
           CHR ''e'' # exponent_sign e' # pair_digits (nat \<bar>e'\<bar>) \<and>
         exponent_suffix_ok (range_bytes mem'' buffer' buffer''))) \<and>
   (case to_chars_double_significand 15 122 0 (\<lambda>_. CHR ''x'') of (e', buffer', mem') \<Rightarrow>
      (case to_chars_double 15 122 0 general (\<lambda>_. CHR ''x'') of (buffer'', mem'') \<Rightarrow>
         range_bytes mem'' buffer' buffer'' =
           CHR ''e'' # exponent_sign e' #
             (if \<bar>e'\<bar> < 100 then pair_digits (nat \<bar>e'\<bar>)
              else pair_digits (nat \<bar>e'\<bar> div 10) @ [digit_char (nat \<bar>e'\<bar> mod 10)]) \<and>
         exponent_suffix_ok (range_bytes mem'' buffer' buffer''))) \<and>
   exponent_digits 308 = (30, 8)"
proof -
  let ?m = "\<lambda>_::nat. CHR ''x''"
  have f: "fst (print_9_digits 15 1 0 ?m) = 2"
    by (simp add: print_9_digits_fst length_dec_digits_15)
  have d: "fst (to_chars_double_significand 15 122 0 ?m) = 123"
    by (simp add: to_chars_double_significand_small print_9_digits_fst length_dec_digits_15)
  have h: "\<bar>fst (print_9_digits 15 1 0 ?m)\<bar> \<le> 99"
    "fst (print_9_digits 15 1 0 ?m) \<noteq> 0 \<or> general = scientific"
    "\<bar>fst (to_chars_double_significand 15 122 0 ?m)\<bar> \<le> 999"
    "fst (to_chars_double_significand 15 122 0 ?m) \<noteq> 0 \<or> general = scientific"
    by (simp_all add: f d)
  note t = exponent_suffix_form [OF h]
  have "(308::nat) \<in> {100..999}" by simp
  with t have "exponent_digits 308 = (308 div 10, 308 mod 10)" by blast
  hence x: "exponent_digits 308 = (30, 8)" by simp
  note A = t [THEN conjunct1]
  note B = t [THEN conjunct2, THEN conjunct1]
  show ?thesis by (intro conjI f d A B x)
qed

text \<open>
  C1: for every \<open>s32\<close> in \<open>[1, 999999999]\<close> (without trailing zeros when it has 9
  digits) and every 64-bit significand in \<open>[1, 10^17 - 1]\<close> (without trailing zeros
  when it has 17 digits), the bytes between the initial and the returned cursor are
  exactly the significant decimal digits of the input with the trailing zeros removed:
  the leading digit, a \<open>.\<close> if and only if more than one significant digit remains,
  then the remaining significant digits. The text ends neither in \<open>0\<close> nor in \<open>.\<close>, and
  with a single digit there is no \<open>.\<close>.
\<close>

theorem shortest_digits_text:
  assumes "1 \<le> s32" "s32 \<le> 999999999" "100000000 \<le> s32 \<longrightarrow> s32 mod 10 \<noteq> 0"
    and "1 \<le> significand" "significand \<le> 10 ^ 17 - 1"
    and "10 ^ 16 \<le> significand \<longrightarrow> significand mod 10 \<noteq> 0"
  shows "(case print_9_digits s32 e buffer mem of (e', buffer', mem') \<Rightarrow>
            range_bytes mem' buffer buffer' = significand_text s32) \<and>
         (case to_chars_double_significand significand e2 buffer mem of (e', buffer', mem') \<Rightarrow>
            range_bytes mem' buffer buffer' = significand_text significand) \<and>
         (\<forall>n \<in> {s32, significand}.
            significand_text n \<noteq> [] \<and>
            last (significand_text n) \<noteq> CHR ''0'' \<and>
            last (significand_text n) \<noteq> CHR ''.'' \<and>
            (CHR ''.'' \<in> set (significand_text n)) = (1 < count_digits (significand_text n)))"
proof -
  let ?t = "if s32 < 100000000 then significand_text s32 else point_after_first (dec_digits s32)"
  have t: "?t = significand_text s32"
    using assms(3) by (auto simp: text_no_trailing_zero)
  obtain m1 where m1:
    "print_9_digits s32 e buffer mem = (e + int (length (dec_digits s32)) - 1, buffer + length ?t, m1)"
    "range_bytes m1 buffer (buffer + length ?t) = ?t"
    using print_9_digits_exponent_cursor [OF assms(1,2), of e buffer mem] by blast
  have A: "case print_9_digits s32 e buffer mem of (e', buffer', mem') \<Rightarrow>
            range_bytes mem' buffer buffer' = significand_text s32"
    unfolding m1(1) using m1(2) t by simp
  obtain m2 where m2:
    "to_chars_double_significand significand e2 buffer mem =
       (e2 + int (length (dec_digits significand)) - 1,
        buffer + length (significand_text significand), m2)"
    "range_bytes m2 buffer (buffer + length (significand_text significand)) =
       significand_text significand"
    using double_text [OF assms(4,5,6), of e2 buffer mem] by blast
  have B: "case to_chars_double_significand significand e2 buffer mem of (e', buffer', mem') \<Rightarrow>
            range_bytes mem' buffer buffer' = significand_text significand"
    unfolding m2(1) using m2(2) by simp
  show ?thesis
    using A B significand_text_shape [OF assms(1)] significand_text_shape [OF assms(4)]
    by simp
qed

theorem shortest_digits_text_witness:
  "(1::nat) \<le> 1234500 \<and> (1234500::nat) \<le> 999999999 \<and> (1234500::nat) < 100000000 \<and>
   (1::nat) \<le> 12345678901234567 \<and> (12345678901234567::nat) \<le> 10 ^ 17 - 1 \<and>
   (12345678901234567::nat) mod 10 = 7 \<and>
   (case print_9_digits 1234500 0 0 (\<lambda>_. CHR ''x'') of (e', buffer', mem') \<Rightarrow>
      range_bytes mem' 0 buffer' = ''1.2345'') \<and>
   (case to_chars_double_significand 12345678901234567 0 0 (\<lambda>_. CHR ''x'') of
      (e', buffer', mem') \<Rightarrow> range_bytes mem' 0 buffer' = ''1.2345678901234567'')"
proof -
  let ?m = "\<lambda>_::nat. CHR ''x''"
  have h: "(1::nat) \<le> 1234500" "(1234500::nat) \<le> 999999999"
    "100000000 \<le> (1234500::nat) \<longrightarrow> (1234500::nat) mod 10 \<noteq> 0"
    "(1::nat) \<le> 12345678901234567" "(12345678901234567::nat) \<le> 10 ^ 17 - 1"
    "10 ^ 16 \<le> (12345678901234567::nat) \<longrightarrow> (12345678901234567::nat) mod 10 \<noteq> 0"
    by simp_all
  note t = shortest_digits_text [OF h, of 0 0 ?m 0]
  note A = t [THEN conjunct1, unfolded significand_text_1234500]
  note B = t [THEN conjunct2, THEN conjunct1, unfolded significand_text_12345678901234567]
  have n: "(1234500::nat) < 100000000" "(12345678901234567::nat) mod 10 = 7" by simp_all
  show ?thesis by (intro conjI h(1,2,4,5) n A B)
qed

text \<open>
  C8: for every valid input (significand in the range of the data model, exponent
  magnitude after digit emission at most 99 for binary32 and 999 for binary64, format
  scientific or general) both writers return a cursor at most 25 bytes past the
  initial cursor, and leave every byte outside \<open>[initial_cursor, initial_cursor + 32)\<close>
  as it was: no byte at or beyond \<open>initial_cursor + 32\<close> is written.
\<close>

theorem buffer_bound:
  assumes "1 \<le> s32" "s32 \<le> 999999999"
    and "\<bar>fst (print_9_digits s32 e buffer mem)\<bar> \<le> 99"
    and "1 \<le> significand" "significand \<le> 10 ^ 17 - 1"
    and "\<bar>fst (to_chars_double_significand significand e2 buffer mem)\<bar> \<le> 999"
    and "fmt = scientific \<or> fmt = general"
  shows "(case to_chars_float s32 e buffer fmt mem of (buffer', mem') \<Rightarrow>
            buffer \<le> buffer' \<and> buffer' \<le> buffer + 25 \<and>
            unchanged_outside mem mem' buffer (buffer + 32)) \<and>
         (case to_chars_double significand e2 buffer fmt mem of (buffer', mem') \<Rightarrow>
            buffer \<le> buffer' \<and> buffer' \<le> buffer + 25 \<and>
            unchanged_outside mem mem' buffer (buffer + 32))"
proof -
  obtain p1 m1 where f: "to_chars_float s32 e buffer fmt mem = (p1, m1)"
    by (cases "to_chars_float s32 e buffer fmt mem") auto
  obtain p2 m2 where d: "to_chars_double significand e2 buffer fmt mem = (p2, m2)"
    by (cases "to_chars_double significand e2 buffer fmt mem") auto
  have a: "buffer \<le> p1" "p1 \<le> buffer + 14" "unchanged_outside mem m1 buffer (buffer + 14)"
    using frame_to_chars_float [where ?s32.0 = s32 and e = e and p = buffer and fmt = fmt and mem = mem]
    unfolding f by simp_all
  have b: "buffer \<le> p2" "p2 \<le> buffer + 23" "unchanged_outside mem m2 buffer (buffer + 23)"
    using frame_to_chars_double [where s = significand and e = e2 and p = buffer and fmt = fmt and mem = mem]
    unfolding d by simp_all
  have "unchanged_outside mem m1 buffer (buffer + 32)"
    using a(3) unchanged_outside_refl [of m1 buffer buffer]
    by (rule unchanged_outside_trans) simp_all
  moreover have "unchanged_outside mem m2 buffer (buffer + 32)"
    using b(3) unchanged_outside_refl [of m2 buffer buffer]
    by (rule unchanged_outside_trans) simp_all
  ultimately show ?thesis unfolding f d using a b by simp
qed

theorem buffer_bound_witness:
  "(1::nat) \<le> 15 \<and> (15::nat) \<le> 999999999 \<and>
   fst (print_9_digits 15 1 0 (\<lambda>_. CHR ''x'')) = 2 \<and>
   (15::nat) \<le> 10 ^ 17 - 1 \<and>
   fst (to_chars_double_significand 15 122 0 (\<lambda>_. CHR ''x'')) = 123 \<and>
   (case to_chars_float 15 1 0 general (\<lambda>_. CHR ''x'') of (buffer', mem') \<Rightarrow>
            0 \<le> buffer' \<and> buffer' \<le> 0 + 25 \<and>
            unchanged_outside (\<lambda>_. CHR ''x'') mem' 0 (0 + 32)) \<and>
   (case to_chars_double 15 122 0 general (\<lambda>_. CHR ''x'') of (buffer', mem') \<Rightarrow>
            0 \<le> buffer' \<and> buffer' \<le> 0 + 25 \<and>
            unchanged_outside (\<lambda>_. CHR ''x'') mem' 0 (0 + 32))"
proof -
  let ?m = "\<lambda>_::nat. CHR ''x''"
  have f: "fst (print_9_digits 15 1 0 ?m) = 2"
    by (simp add: print_9_digits_fst length_dec_digits_15)
  have d: "fst (to_chars_double_significand 15 122 0 ?m) = 123"
    by (simp add: to_chars_double_significand_small print_9_digits_fst length_dec_digits_15)
  have h: "(1::nat) \<le> 15" "(15::nat) \<le> 999999999" "\<bar>fst (print_9_digits 15 1 0 ?m)\<bar> \<le> 99"
    "(1::nat) \<le> 15" "(15::nat) \<le> 10 ^ 17 - 1"
    "\<bar>fst (to_chars_double_significand 15 122 0 ?m)\<bar> \<le> 999"
    "general = scientific \<or> general = general"
    by (simp_all add: f d)
  note t = buffer_bound [OF h]
  note A = t [THEN conjunct1]
  note B = t [THEN conjunct2]
  show ?thesis by (intro conjI h(1,2,5) f d A B)
qed

end
